theory Spec2Isabelle
  imports Complex_Main
begin

section \<open>SnakeyBoi: the scored Snake game of \<^verbatim>\<open>main.cpp\<close>\<close>

text \<open>
  The development embeds the second (scored) \<^verbatim>\<open>SnakeGame\<close> class of \<^verbatim>\<open>main.cpp\<close> and the
  \<^verbatim>\<open>ParticleEmitter\<close> of the engine header.

  Numbers. The grid coordinates and velocities are \<^verbatim>\<open>float\<close> fields that only ever hold
  the constants \<open>8\<close>, \<open>0\<close>, \<open>1\<close>, \<open>-1\<close>, \<open>GRID_WIDTH - 1\<close>, \<open>GRID_HEIGHT - 1\<close>, values of
  \<^verbatim>\<open>rand() % GRID_WIDTH\<close> and sums of two such values: small integers, on which \<^verbatim>\<open>float\<close>
  addition and comparison are exact. They are modelled as \<open>int\<close>. The times of the game
  (\<^verbatim>\<open>deltaTime\<close>, \<^verbatim>\<open>secondAccumulator\<close>) and its rate are \<^verbatim>\<open>float\<close> too: each is modelled as
  the real number it denotes, and every arithmetic operation of the source on them is
  followed by the rounding of IEEE 754 binary32 (\<open>round32\<close> below). The \<^verbatim>\<open>float\<close> fields of
  the particle emitter, which may hold an infinity or a NaN, have the type \<open>float32\<close> of
  the second part. \<^verbatim>\<open>int\<close> counters are modelled as \<open>int\<close>; the recorded tail length of a
  reachable game stays below 302 (lemma \<open>reachable_tailLength_bound\<close>).

  Effects. \<^verbatim>\<open>rand()\<close> reads a global stream: the stream is a parameter \<open>rng\<close> and the
  number of calls made so far is a field of the state. Render calls are collected in the
  list of draw commands of the frame. An indexed access outside a vector is undefined
  behaviour in C++: it is the error \<open>OutOfBounds\<close>. A loop that may run forever yields
  \<open>None\<close>.
\<close>

subsection \<open>Data\<close>

datatype GameState = MENU | PLAYING | LOSE | PAUSE

datatype error = OutOfBounds | BadArrayNewLength | UndefinedConversion

record Apple =
  Apple_x :: int
  Apple_y :: int

record Tail =
  Tail_x :: int
  Tail_y :: int

record Snake =
  xVelocity :: int
  yVelocity :: int
  tail :: "Tail list"
  tailLength :: int

record Score =
  score :: int
  texture_score :: int  \<comment> \<open>the number shown by the text last rendered into the score texture\<close>

record SnakeGame =
  state :: GameState
  movesPerSecond :: real
  movesPerformedThisSecond :: int
  secondAccumulator :: real
  snake :: Snake
  apple :: Apple
  scoreboard :: Score
  randCalls :: nat  \<comment> \<open>how many values \<^verbatim>\<open>rand()\<close> has handed out\<close>

datatype scancode =
    SDL_SCANCODE_W | SDL_SCANCODE_UP
  | SDL_SCANCODE_S | SDL_SCANCODE_DOWN
  | SDL_SCANCODE_A | SDL_SCANCODE_LEFT
  | SDL_SCANCODE_D | SDL_SCANCODE_RIGHT
  | SDL_SCANCODE_ESCAPE | SDL_SCANCODE_SPACE

type_synonym keystates = "scancode \<Rightarrow> bool"

datatype texture = SnakeTexture | AppleTexture | ScoreTexture int | MenuTexture | LoseTexture

datatype draw =
    Render texture int int
  | RenderCentred texture
      \<comment> \<open>the position is computed from the width and height the font library gave the texture\<close>

definition WIDTH :: int where "WIDTH = 640"
definition HEIGHT :: int where "HEIGHT = 480"
definition GRID_SIZE :: int where "GRID_SIZE = 32"
definition GRID_WIDTH :: int where "GRID_WIDTH = WIDTH div GRID_SIZE"
definition GRID_HEIGHT :: int where "GRID_HEIGHT = HEIGHT div GRID_SIZE"

definition segment :: "int \<Rightarrow> int \<Rightarrow> Tail" where
  "segment a b = \<lparr>Tail_x = a, Tail_y = b\<rparr>"

text \<open>The members' in-class initialisers; \<^verbatim>\<open>OnCreate\<close> allocates the objects with theirs.\<close>

definition initial :: SnakeGame where
  "initial =
     \<lparr>state = MENU, movesPerSecond = 10, movesPerformedThisSecond = 0, secondAccumulator = 0,
      snake = \<lparr>xVelocity = 0, yVelocity = 0, tail = [], tailLength = 0\<rparr>,
      apple = \<lparr>Apple_x = 0, Apple_y = 0\<rparr>,
      scoreboard = \<lparr>score = 0, texture_score = 0\<rparr>,
      randCalls = 0\<rparr>"

subsection \<open>Starting a game and handling input\<close>

definition InitPlayingState :: "(nat \<Rightarrow> nat) \<Rightarrow> SnakeGame \<Rightarrow> SnakeGame" where
  "InitPlayingState rng g =
     (let startingX = 8; startingY = 8;
          sn = (snake g)\<lparr>xVelocity := 1, yVelocity := 0, tailLength := 6, tail := []\<rparr>;
          sn' = sn\<lparr>tail := map (\<lambda>i. segment (startingX + (- xVelocity sn * int i)) startingY)
                             [0 ..< nat (tailLength sn)]\<rparr>;
          k = randCalls g
      in g\<lparr>snake := sn',
           apple := \<lparr>Apple_x = int (rng k) mod GRID_WIDTH,
                     Apple_y = int (rng (Suc k)) mod GRID_HEIGHT\<rparr>,
           scoreboard := \<lparr>score = 0, texture_score = 0\<rparr>,
           randCalls := k + 2\<rparr>)"

definition OnEventMenu :: "(nat \<Rightarrow> nat) \<Rightarrow> SnakeGame \<Rightarrow> keystates \<Rightarrow> SnakeGame" where
  "OnEventMenu rng g currentKeyStates =
     (if currentKeyStates SDL_SCANCODE_SPACE
      then InitPlayingState rng (g\<lparr>state := PLAYING\<rparr>)
      else g)"

definition set_velocity :: "SnakeGame \<Rightarrow> int \<Rightarrow> int \<Rightarrow> SnakeGame" where
  "set_velocity g vx vy = g\<lparr>snake := (snake g)\<lparr>yVelocity := vy, xVelocity := vx\<rparr>\<rparr>"

definition OnEventPlaying :: "SnakeGame \<Rightarrow> keystates \<Rightarrow> SnakeGame" where
  "OnEventPlaying g currentKeyStates =
     (if currentKeyStates SDL_SCANCODE_W \<or> currentKeyStates SDL_SCANCODE_UP then
        (if yVelocity (snake g) \<noteq> 1 then set_velocity g 0 (- 1) else g)
      else if currentKeyStates SDL_SCANCODE_S \<or> currentKeyStates SDL_SCANCODE_DOWN then
        (if yVelocity (snake g) \<noteq> - 1 then set_velocity g 0 1 else g)
      else if currentKeyStates SDL_SCANCODE_A \<or> currentKeyStates SDL_SCANCODE_LEFT then
        (if xVelocity (snake g) \<noteq> 1 then set_velocity g (- 1) 0 else g)
      else if currentKeyStates SDL_SCANCODE_D \<or> currentKeyStates SDL_SCANCODE_RIGHT then
        (if xVelocity (snake g) \<noteq> - 1 then set_velocity g 1 0 else g)
      else if currentKeyStates SDL_SCANCODE_ESCAPE then g\<lparr>state := MENU\<rparr>
      else g)"

definition OnEvent :: "(nat \<Rightarrow> nat) \<Rightarrow> SnakeGame \<Rightarrow> keystates \<Rightarrow> SnakeGame" where
  "OnEvent rng g currentKeyStates =
     (case state g of
        MENU \<Rightarrow> OnEventMenu rng g currentKeyStates
      | PLAYING \<Rightarrow> OnEventPlaying g currentKeyStates
      | LOSE \<Rightarrow> OnEventMenu rng g currentKeyStates
      | PAUSE \<Rightarrow> g)"

subsection \<open>Arithmetic of \<^verbatim>\<open>float\<close>\<close>

text \<open>
  A finite \<^verbatim>\<open>float\<close> is a number \<open>m * 2 ^ k\<close> with \<open>\<bar>m\<bar> < 2 ^ 24\<close> and \<open>- 149 \<le> k \<le> 104\<close> (IEEE
  754 binary32), a finite \<^verbatim>\<open>double\<close> one with \<open>\<bar>m\<bar> < 2 ^ 53\<close> and \<open>- 1074 \<le> k \<le> 971\<close>. An arithmetic
  operation yields the exact result rounded to the nearest number of the format, a tie
  going to the even significand; each operation of the source rounds once, to the type
  that the usual arithmetic conversions of C++ give it (\<^verbatim>\<open>FLT_EVAL_METHOD\<close> is \<open>0\<close> and
  no two operations are contracted into one).

  \<open>float_round p emin x\<close> rounds \<open>x\<close> to \<open>p\<close> significant bits with least exponent \<open>emin\<close>:
  the unit in the last place of \<open>x\<close> is \<open>2\<close> to the power \<open>float_exponent p emin x\<close>. It
  has no largest exponent: a result beyond the largest finite number, which the machine
  replaces by an infinity, is dealt with where it is used.
\<close>

definition round_even :: "real \<Rightarrow> int" where
  "round_even y =
     (let f = \<lfloor>y\<rfloor>; d = y - of_int f
      in if d < 1 / 2 then f else if 1 / 2 < d then f + 1 else if even f then f else f + 1)"

definition float_exponent :: "nat \<Rightarrow> int \<Rightarrow> real \<Rightarrow> int" where
  "float_exponent p emin x = max (\<lfloor>log 2 \<bar>x\<bar>\<rfloor> - (int p - 1)) emin"

definition float_round :: "nat \<Rightarrow> int \<Rightarrow> real \<Rightarrow> real" where
  "float_round p emin x =
     (if x = 0 then 0
      else of_int (round_even (x / 2 powi float_exponent p emin x))
             * 2 powi float_exponent p emin x)"

definition round32 :: "real \<Rightarrow> real" where
  "round32 = float_round 24 (- 149)"

definition round64 :: "real \<Rightarrow> real" where
  "round64 = float_round 53 (- 1074)"

text \<open>The numbers of a format.\<close>

definition representable :: "nat \<Rightarrow> int \<Rightarrow> real \<Rightarrow> bool" where
  "representable p emin r = (\<exists>m k. r = of_int m * 2 powi k \<and> \<bar>m\<bar> < 2 ^ p \<and> emin \<le> k)"

subsection \<open>The frame update\<close>

text \<open>
  Lines 536 to 549: the move scheduler. It returns the game with its two counters updated
  and \<^verbatim>\<open>moveThisFrameUpdate\<close>. The sum, the product and the quotient are \<^verbatim>\<open>float\<close>
  operations, and the \<^verbatim>\<open>int\<close> count is converted to \<^verbatim>\<open>float\<close> for the comparison; the
  comparison with the \<^verbatim>\<open>double\<close> \<open>1000.0\<close> is exact. The engine computes \<^verbatim>\<open>deltaTime\<close> from
  tick counts of 32 bits, so that it is finite and at most \<open>2 ^ 32\<close> in magnitude; the
  accumulator is reset as soon as it reaches \<open>1000\<close> and the rate is \<open>10\<close>: the sums, the
  products and the quotients of the scheduler stay far below the largest finite \<^verbatim>\<open>float\<close>,
  and no operation yields an infinity or a NaN.
\<close>

definition schedule :: "SnakeGame \<Rightarrow> real \<Rightarrow> SnakeGame \<times> bool" where
  "schedule g deltaTime =
     (let g1 = g\<lparr>secondAccumulator := round32 (secondAccumulator g + deltaTime)\<rparr>;
          g2 = (if secondAccumulator g1 \<ge> 1000
                then g1\<lparr>secondAccumulator := 0, movesPerformedThisSecond := 0\<rparr>
                else g1)
      in if round32 (real_of_int (movesPerformedThisSecond g2))
              < round32 (round32 (secondAccumulator g2 * movesPerSecond g2) / 1000)
         then (g2\<lparr>movesPerformedThisSecond := movesPerformedThisSecond g2 + 1\<rparr>, True)
         else (g2, False))"

text \<open>Lines 556 to 574, for one coordinate: two \<^verbatim>\<open>if\<close> statements in sequence.\<close>

definition wrap :: "int \<Rightarrow> int \<Rightarrow> int" where
  "wrap gridDimension v =
     (let v1 = (if v > gridDimension - 1 then 0 else v)
      in if v1 < 0 then gridDimension - 1 else v1)"

definition new_head :: "Tail \<Rightarrow> Snake \<Rightarrow> Tail" where
  "new_head h sn =
     segment (wrap GRID_WIDTH (Tail_x h + xVelocity sn))
             (wrap GRID_HEIGHT (Tail_y h + yVelocity sn))"

text \<open>
  The loop \<^verbatim>\<open>for (int i = 0; i < tailLength; i++) if (tail[i] is at (px, py)) flag\<close>, which
  the update runs twice (lines 576 to 582 and 601 to 607): \<open>found\<close> records whether the
  body of the \<^verbatim>\<open>if\<close> has run.
\<close>

function scan_tail :: "Tail list \<Rightarrow> int \<Rightarrow> int \<Rightarrow> int \<Rightarrow> nat \<Rightarrow> bool \<Rightarrow> error + bool" where
  "scan_tail ts n px py i found =
     (if int i < n then
        (if i < length ts
         then scan_tail ts n px py (Suc i) (found \<or> (Tail_x (ts ! i) = px \<and> Tail_y (ts ! i) = py))
         else Inl OutOfBounds)
      else Inr found)"
  by pat_completeness auto
termination
  by (relation "measure (\<lambda>(ts, n, px, py, i, found). nat (n - int i))") auto

declare scan_tail.simps [simp del]

text \<open>Lines 595 to 608: the respawn search. It returns the cell and the new number of
  \<^verbatim>\<open>rand()\<close> calls.\<close>

partial_function (option) respawn ::
  "(nat \<Rightarrow> nat) \<Rightarrow> Snake \<Rightarrow> nat \<Rightarrow> (error + Apple \<times> nat) option" where
  "respawn rng sn k =
     (let a = \<lparr>Apple_x = int (rng k) mod GRID_WIDTH, Apple_y = int (rng (Suc k)) mod GRID_HEIGHT\<rparr>
      in case scan_tail (tail sn) (tailLength sn) (Apple_x a) (Apple_y a) 0 False of
           Inl e \<Rightarrow> Some (Inl e)
         | Inr found \<Rightarrow> if found then respawn rng sn (k + 2) else Some (Inr (a, k + 2)))"

declare respawn.simps [code]

text \<open>Lines 587 to 615, after the head has been inserted.\<close>

definition eat_or_shrink :: "(nat \<Rightarrow> nat) \<Rightarrow> SnakeGame \<Rightarrow> (error + SnakeGame) option" where
  "eat_or_shrink rng g =
     (case tail (snake g) of
        [] \<Rightarrow> Some (Inl OutOfBounds)
      | h # rest \<Rightarrow>
          if Tail_x h = Apple_x (apple g) \<and> Tail_y h = Apple_y (apple g) then
            (let sc = score (scoreboard g) + 1;
                 g1 = g\<lparr>scoreboard := \<lparr>score = sc, texture_score = sc\<rparr>\<rparr>
             in case respawn rng (snake g1) (randCalls g1) of
                  None \<Rightarrow> None
                | Some (Inl e) \<Rightarrow> Some (Inl e)
                | Some (Inr (a, k)) \<Rightarrow>
                    Some (Inr (g1\<lparr>apple := a, randCalls := k,
                                  snake := (snake g1)\<lparr>tailLength := tailLength (snake g1) + 1\<rparr>\<rparr>)))
          else Some (Inr (g\<lparr>snake := (snake g)\<lparr>tail := butlast (tail (snake g))\<rparr>\<rparr>)))"

text \<open>Lines 553 to 615: one simulation step.\<close>

definition move :: "(nat \<Rightarrow> nat) \<Rightarrow> SnakeGame \<Rightarrow> (error + SnakeGame) option" where
  "move rng g =
     (case tail (snake g) of
        [] \<Rightarrow> Some (Inl OutOfBounds)
      | h # rest \<Rightarrow>
          (let head = new_head h (snake g)
           in case scan_tail (tail (snake g)) (tailLength (snake g)) (Tail_x head) (Tail_y head) 0 False of
                Inl e \<Rightarrow> Some (Inl e)
              | Inr found \<Rightarrow>
                  (let g1 = (if found then g\<lparr>state := LOSE\<rparr> else g);
                       g2 = g1\<lparr>snake := (snake g1)\<lparr>tail := head # tail (snake g1)\<rparr>\<rparr>
                   in eat_or_shrink rng g2)))"

text \<open>Lines 620 to 623: the loop that draws the first \<^verbatim>\<open>tailLength\<close> segments.\<close>

function render_tail :: "Tail list \<Rightarrow> int \<Rightarrow> nat \<Rightarrow> draw list \<Rightarrow> error + draw list" where
  "render_tail ts n i frame =
     (if int i < n then
        (if i < length ts
         then render_tail ts n (Suc i)
                (frame @ [Render SnakeTexture (Tail_x (ts ! i) * GRID_SIZE) (Tail_y (ts ! i) * GRID_SIZE)])
         else Inl OutOfBounds)
      else Inr frame)"
  by pat_completeness auto
termination
  by (relation "measure (\<lambda>(ts, n, i, frame). nat (n - int i))") auto

declare render_tail.simps [simp del]

text \<open>Lines 618 to 625.\<close>

definition render_playing :: "SnakeGame \<Rightarrow> error + draw list" where
  "render_playing g =
     (case render_tail (tail (snake g)) (tailLength (snake g)) 0
             [Render AppleTexture (Apple_x (apple g) * GRID_SIZE) (Apple_y (apple g) * GRID_SIZE)] of
        Inl e \<Rightarrow> Inl e
      | Inr frame \<Rightarrow> Inr (frame @ [Render (ScoreTexture (texture_score (scoreboard g))) 10 10]))"

definition OnUpdatePlaying ::
  "(nat \<Rightarrow> nat) \<Rightarrow> SnakeGame \<Rightarrow> real \<Rightarrow> (error + SnakeGame \<times> draw list) option" where
  "OnUpdatePlaying rng g deltaTime =
     (let (g1, moveThisFrameUpdate) = schedule g deltaTime
      in case (if moveThisFrameUpdate then move rng g1 else Some (Inr g1)) of
           None \<Rightarrow> None
         | Some (Inl e) \<Rightarrow> Some (Inl e)
         | Some (Inr g2) \<Rightarrow>
             (case render_playing g2 of
                Inl e \<Rightarrow> Some (Inl e)
              | Inr frame \<Rightarrow> Some (Inr (g2, frame))))"

definition OnUpdateMenu :: "SnakeGame \<Rightarrow> real \<Rightarrow> SnakeGame \<times> draw list" where
  "OnUpdateMenu g deltaTime = (g, [Render MenuTexture 0 0])"

definition OnUpdateLose :: "SnakeGame \<Rightarrow> real \<Rightarrow> SnakeGame \<times> draw list" where
  "OnUpdateLose g deltaTime =
     (g, [Render LoseTexture 0 0, RenderCentred (ScoreTexture (texture_score (scoreboard g)))])"

definition OnUpdate ::
  "(nat \<Rightarrow> nat) \<Rightarrow> SnakeGame \<Rightarrow> real \<Rightarrow> (error + SnakeGame \<times> draw list) option" where
  "OnUpdate rng g deltaTime =
     (case state g of
        MENU \<Rightarrow> Some (Inr (OnUpdateMenu g deltaTime))
      | PLAYING \<Rightarrow> OnUpdatePlaying rng g deltaTime
      | LOSE \<Rightarrow> Some (Inr (OnUpdateLose g deltaTime))
      | PAUSE \<Rightarrow> Some (Inr (g, [])))"

text \<open>
  The states the engine's loop can produce: each iteration of \<^verbatim>\<open>Engine::Update\<close> calls
  \<^verbatim>\<open>OnEvent\<close> once for every pending event and then \<^verbatim>\<open>OnUpdate\<close> once.
\<close>

inductive reachable :: "(nat \<Rightarrow> nat) \<Rightarrow> SnakeGame \<Rightarrow> bool" for rng :: "nat \<Rightarrow> nat" where
  start: "reachable rng initial"
| event: "reachable rng g \<Longrightarrow> reachable rng (OnEvent rng g ks)"
| update: "reachable rng g \<Longrightarrow> OnUpdate rng g deltaTime = Some (Inr (g', frame)) \<Longrightarrow> reachable rng g'"

section \<open>The particle emitter of the engine\<close>

text \<open>
  \<^verbatim>\<open>ParticleEmitter\<close> of the engine header. \<^verbatim>\<open>RAND_MAX\<close> is a constant of the C library and
  \<^verbatim>\<open>SDL_GetTicks()\<close> a clock: both are parameters. The texture that the emitter draws with is
  taken to be a texture (not a null pointer).

  Its \<^verbatim>\<open>float\<close> fields and arguments are set by the program that uses the engine, so they
  can hold any \<^verbatim>\<open>float\<close>: a finite number, an infinity or a NaN. Zero carries no sign in
  \<open>float32\<close>, the one simplification: a division of a number other than zero by zero
  yields the infinity of the sign of the dividend, as it does for a positive zero. The
  divisor \<^verbatim>\<open>RAND_MAX / 2.0\<close> is not negative, and the quotient by \<^verbatim>\<open>totalLifeTime\<close>, the only
  other one whose divisor can be zero, is converted to \<^verbatim>\<open>int\<close>, which is undefined for
  either infinity.
\<close>

subsection \<open>Values and operations of \<^verbatim>\<open>float\<close>\<close>

datatype float32 = Finite real | PInf | NInf | NaN

text \<open>The largest finite \<^verbatim>\<open>float\<close>, and the \<^verbatim>\<open>float\<close> that an exact result is rounded to: an
  infinity when the rounding to 24 bits lies beyond the largest finite number.\<close>

definition FLT_MAX :: real where
  "FLT_MAX = (2 ^ 24 - 1) * 2 ^ 104"

definition to_float :: "real \<Rightarrow> float32" where
  "to_float r =
     (let v = round32 r
      in if FLT_MAX < v then PInf else if v < - FLT_MAX then NInf else Finite v)"

text \<open>The sign of a value (\<open>0\<close> for zero and for a NaN), and the infinity of a sign (a NaN
  for the sign \<open>0\<close>).\<close>

definition fsgn :: "float32 \<Rightarrow> int" where
  "fsgn a =
     (case a of
        Finite x \<Rightarrow> (if 0 < x then 1 else if x < 0 then - 1 else 0)
      | PInf \<Rightarrow> 1
      | NInf \<Rightarrow> - 1
      | NaN \<Rightarrow> 0)"

definition finf :: "int \<Rightarrow> float32" where
  "finf s = (if 0 < s then PInf else if s < 0 then NInf else NaN)"

definition fneg :: "float32 \<Rightarrow> float32" where
  "fneg a = (case a of Finite x \<Rightarrow> Finite (- x) | PInf \<Rightarrow> NInf | NInf \<Rightarrow> PInf | NaN \<Rightarrow> NaN)"

fun fadd :: "float32 \<Rightarrow> float32 \<Rightarrow> float32" where
  "fadd (Finite x) (Finite y) = to_float (x + y)"
| "fadd (Finite x) b = b"
| "fadd a (Finite y) = a"
| "fadd a b = (if a = b then a else NaN)"

definition fsub :: "float32 \<Rightarrow> float32 \<Rightarrow> float32" where
  "fsub a b = fadd a (fneg b)"

fun fmul :: "float32 \<Rightarrow> float32 \<Rightarrow> float32" where
  "fmul (Finite x) (Finite y) = to_float (x * y)"
| "fmul a b = (if a = NaN \<or> b = NaN then NaN else finf (fsgn a * fsgn b))"

fun fdiv :: "float32 \<Rightarrow> float32 \<Rightarrow> float32" where
  "fdiv (Finite x) (Finite y) = (if y = 0 then finf (fsgn (Finite x)) else to_float (x / y))"
| "fdiv (Finite x) PInf = Finite 0"
| "fdiv (Finite x) NInf = Finite 0"
| "fdiv a (Finite y) = (if a = NaN then NaN else finf (fsgn a * (if y < 0 then - 1 else 1)))"
| "fdiv a b = NaN"

text \<open>The comparisons \<^verbatim>\<open><=\<close> and \<^verbatim>\<open><\<close>: false as soon as an operand is a NaN.\<close>

fun fle :: "float32 \<Rightarrow> float32 \<Rightarrow> bool" where
  "fle (Finite x) (Finite y) = (x \<le> y)"
| "fle NaN b = False"
| "fle a NaN = False"
| "fle NInf b = True"
| "fle a PInf = True"
| "fle a b = False"

definition fless :: "float32 \<Rightarrow> float32 \<Rightarrow> bool" where
  "fless a b = (fle a b \<and> \<not> fle b a)"

text \<open>
  The conversions. An \<^verbatim>\<open>int\<close> or a \<^verbatim>\<open>Uint32\<close> becomes the nearest \<^verbatim>\<open>float\<close>. A \<^verbatim>\<open>float\<close> becomes
  an \<^verbatim>\<open>int\<close> by truncation towards zero; the behaviour is undefined when the truncated
  value is not an \<^verbatim>\<open>int\<close> of 32 bits, and for an infinity or a NaN: the error
  \<open>UndefinedConversion\<close>.
\<close>

definition of_int32 :: "int \<Rightarrow> float32" where
  "of_int32 n = to_float (real_of_int n)"

definition of_uint32 :: "nat \<Rightarrow> float32" where
  "of_uint32 n = to_float (real n)"

definition toward_zero :: "real \<Rightarrow> int" where
  "toward_zero v = (if 0 \<le> v then \<lfloor>v\<rfloor> else \<lceil>v\<rceil>)"

definition to_int :: "float32 \<Rightarrow> error + int" where
  "to_int a =
     (case a of
        Finite v \<Rightarrow>
          (if - 2147483648 \<le> toward_zero v \<and> toward_zero v \<le> 2147483647
           then Inr (toward_zero v) else Inl UndefinedConversion)
      | PInf \<Rightarrow> Inl UndefinedConversion
      | NInf \<Rightarrow> Inl UndefinedConversion
      | NaN \<Rightarrow> Inl UndefinedConversion)"

subsection \<open>The emitter\<close>

record Particle =
  Particle_x :: float32
  Particle_y :: float32
  Particle_xVelocity :: float32
  Particle_yVelocity :: float32
  totalLifeTime :: float32
  lifeTimeRemaining :: float32
  Particle_active :: bool

record ParticleEmitter =
  emitter_active :: bool
  newParticlesPerSecond :: int
  startOfSecond :: float32
  particlesCreatedThisSecond :: float32
  emitter_x :: float32
  emitter_y :: float32
  lifeInMiliseconds :: float32
  startSizeMultiplier :: float32
  endSizeMultiplier :: float32
  speed :: float32
  particlePool :: "Particle list"
  currentParticlePoolIndex :: int
  maxParticles :: int

datatype particle_draw = RenderAlpha float32 float32 int
  \<comment> \<open>\<^verbatim>\<open>texture->Render(x, y, NULL, 0.0, NULL, SDL_FLIP_NONE, alpha)\<close>\<close>

text \<open>The member initialisers of \<^verbatim>\<open>struct Particle\<close>.\<close>

definition new_Particle :: Particle where
  "new_Particle =
     \<lparr>Particle_x = Finite 0, Particle_y = Finite 0,
      Particle_xVelocity = Finite 0, Particle_yVelocity = Finite 0,
      totalLifeTime = Finite 0, lifeTimeRemaining = Finite 0, Particle_active = False\<rparr>"

text \<open>The default constructor (lines 913 to 930): the pool is a null pointer, an array of
  no slot.\<close>

definition default_ParticleEmitter :: ParticleEmitter where
  "default_ParticleEmitter =
     \<lparr>emitter_active = False, newParticlesPerSecond = 0,
      startOfSecond = Finite 0, particlesCreatedThisSecond = Finite 0,
      emitter_x = Finite 0, emitter_y = Finite 0, lifeInMiliseconds = Finite 0,
      startSizeMultiplier = Finite 0, endSizeMultiplier = Finite 0, speed = Finite 0,
      particlePool = [], currentParticlePoolIndex = 0, maxParticles = 0\<rparr>"

text \<open>The constructor (lines 937 to 953); \<open>ticks\<close> is what \<^verbatim>\<open>SDL_GetTicks()\<close> returns, converted
  to the \<^verbatim>\<open>float\<close> field. \<^verbatim>\<open>new Particle[n]\<close> throws for a negative \<open>n\<close>.\<close>

definition new_ParticleEmitter ::
  "nat \<Rightarrow> float32 \<Rightarrow> float32 \<Rightarrow> float32 \<Rightarrow> float32 \<Rightarrow> int \<Rightarrow> float32 \<Rightarrow> float32 \<Rightarrow> int
     \<Rightarrow> error + ParticleEmitter" where
  "new_ParticleEmitter ticks x y lifeInMs spd perSecond startSize endSize maxP =
     (if maxP < 0 then Inl BadArrayNewLength
      else Inr \<lparr>emitter_active = True, newParticlesPerSecond = perSecond,
                startOfSecond = of_uint32 ticks, particlesCreatedThisSecond = Finite 0,
                emitter_x = x, emitter_y = y, lifeInMiliseconds = lifeInMs,
                startSizeMultiplier = startSize, endSizeMultiplier = endSize, speed = spd,
                particlePool = replicate (nat maxP) new_Particle,
                currentParticlePoolIndex = 0, maxParticles = maxP\<rparr>)"

text \<open>
  Lines 980 and 981: \<^verbatim>\<open>-1.0 + static_cast<float>(rand()) / static_cast<float>(RAND_MAX / (1.0 - -1.0))\<close>
  for the value \<open>r\<close> of \<^verbatim>\<open>rand()\<close>. The divisor is computed in \<^verbatim>\<open>double\<close> and converted, the
  quotient is a \<^verbatim>\<open>float\<close> operation, the sum a \<^verbatim>\<open>double\<close> one (which cannot overflow) whose
  result is converted to the \<^verbatim>\<open>float\<close> field.
\<close>

definition random_velocity :: "nat \<Rightarrow> nat \<Rightarrow> float32" where
  "random_velocity rand_max r =
     (case fdiv (of_int32 (int r)) (to_float (round64 (real rand_max / (1 - - 1)))) of
        Finite q \<Rightarrow> to_float (round64 (- 1 + q))
      | PInf \<Rightarrow> PInf
      | NInf \<Rightarrow> NInf
      | NaN \<Rightarrow> NaN)"

text \<open>Lines 972 to 989: the body of the creation loop. The second component counts the
  calls of \<^verbatim>\<open>rand()\<close>. The counter \<^verbatim>\<open>particlesCreatedThisSecond\<close> is a \<^verbatim>\<open>float\<close>.\<close>

definition create_particle ::
  "nat \<Rightarrow> (nat \<Rightarrow> nat) \<Rightarrow> ParticleEmitter \<times> nat \<Rightarrow> error + ParticleEmitter \<times> nat" where
  "create_particle rand_max rng ek =
     (let e = fst ek; k = snd ek; i = currentParticlePoolIndex e
      in if 0 \<le> i \<and> i < int (length (particlePool e)) then
           (let particle =
                  \<lparr>Particle_x = emitter_x e, Particle_y = emitter_y e,
                   Particle_xVelocity = random_velocity rand_max (rng k),
                   Particle_yVelocity = random_velocity rand_max (rng (Suc k)),
                   totalLifeTime = lifeInMiliseconds e,
                   lifeTimeRemaining = lifeInMiliseconds e,
                   Particle_active = True\<rparr>;
                i1 = i + 1;
                i2 = (if i1 > maxParticles e - 2 then 0 else i1)
            in Inr (e\<lparr>particlePool := (particlePool e)[nat i := particle],
                      currentParticlePoolIndex := i2,
                      particlesCreatedThisSecond := fadd (particlesCreatedThisSecond e) (Finite 1)\<rparr>,
                    k + 2))
         else Inl OutOfBounds)"

fun create_particles ::
  "nat \<Rightarrow> (nat \<Rightarrow> nat) \<Rightarrow> nat \<Rightarrow> ParticleEmitter \<times> nat \<Rightarrow> error + ParticleEmitter \<times> nat" where
  "create_particles rand_max rng 0 ek = Inr ek"
| "create_particles rand_max rng (Suc n) ek =
     (case create_particle rand_max rng ek of
        Inl err \<Rightarrow> Inl err
      | Inr ek' \<Rightarrow> create_particles rand_max rng n ek')"

text \<open>Lines 994 to 1011: the update of one slot, and the loop over the slots.\<close>

definition update_particle :: "float32 \<Rightarrow> float32 \<Rightarrow> Particle \<Rightarrow> Particle" where
  "update_particle spd deltaTime p =
     (if Particle_active p then
        (let p1 = p\<lparr>lifeTimeRemaining := fsub (lifeTimeRemaining p) deltaTime\<rparr>
         in if fle (lifeTimeRemaining p1) (Finite 0) then p1\<lparr>Particle_active := False\<rparr>
            else p1\<lparr>Particle_x :=
                      fadd (Particle_x p1) (fmul (fmul (Particle_xVelocity p1) spd) deltaTime),
                    Particle_y :=
                      fadd (Particle_y p1) (fmul (fmul (Particle_yVelocity p1) spd) deltaTime)\<rparr>)
      else p)"

definition update_pool :: "ParticleEmitter \<Rightarrow> float32 \<Rightarrow> error + Particle list" where
  "update_pool e deltaTime =
     (if maxParticles e \<le> int (length (particlePool e))
      then Inr (fold (\<lambda>i pool. pool[i := update_particle (speed e) deltaTime (pool ! i)])
                  [0 ..< nat (maxParticles e)] (particlePool e))
      else Inl OutOfBounds)"

text \<open>Lines 1015 to 1029. \<^verbatim>\<open>int cross = lifeTimeRemaining * 255\<close> is a \<^verbatim>\<open>float\<close> product
  converted to \<^verbatim>\<open>int\<close>, \<^verbatim>\<open>int alpha = cross / totalLifeTime\<close> a \<^verbatim>\<open>float\<close> quotient of the
  converted \<^verbatim>\<open>cross\<close>, converted to \<^verbatim>\<open>int\<close>.\<close>

definition alpha_of :: "Particle \<Rightarrow> error + int" where
  "alpha_of p =
     (case to_int (fmul (lifeTimeRemaining p) (of_int32 255)) of
        Inl err \<Rightarrow> Inl err
      | Inr cross \<Rightarrow> to_int (fdiv (of_int32 cross) (totalLifeTime p)))"

definition render_slot :: "Particle \<Rightarrow> error + particle_draw list \<Rightarrow> error + particle_draw list" where
  "render_slot p acc =
     (case acc of
        Inl err \<Rightarrow> Inl err
      | Inr frame \<Rightarrow>
          if Particle_active p then
            (case alpha_of p of
               Inl err \<Rightarrow> Inl err
             | Inr alpha \<Rightarrow> Inr (frame @ [RenderAlpha (Particle_x p) (Particle_y p) alpha]))
          else Inr frame)"

definition OnRender :: "ParticleEmitter \<Rightarrow> error + particle_draw list" where
  "OnRender e =
     (if maxParticles e \<le> int (length (particlePool e))
      then fold (\<lambda>i acc. render_slot (particlePool e ! i) acc) [0 ..< nat (maxParticles e)] (Inr [])
      else Inl OutOfBounds)"

text \<open>Lines 955 to 1013. \<open>ticks\<close> is what \<^verbatim>\<open>SDL_GetTicks()\<close> returns. The number of particles
  that should have been created is a \<^verbatim>\<open>float\<close> quotient converted to \<^verbatim>\<open>int\<close>; it is compared
  with the \<^verbatim>\<open>float\<close> counter as a \<^verbatim>\<open>float\<close>, and the number of particles to create is their
  \<^verbatim>\<open>float\<close> difference converted to \<^verbatim>\<open>int\<close>.\<close>

definition creation_phase ::
  "nat \<Rightarrow> (nat \<Rightarrow> nat) \<Rightarrow> ParticleEmitter \<times> nat \<Rightarrow> nat \<Rightarrow> error + ParticleEmitter \<times> nat" where
  "creation_phase rand_max rng ek ticks =
     (let e = fst ek;
          currentTime = of_uint32 ticks;
          elapsedTimeInSecond = fsub currentTime (startOfSecond e)
      in case to_int (fdiv (fmul elapsedTimeInSecond (of_int32 (newParticlesPerSecond e)))
                        (of_int32 1000)) of
           Inl err \<Rightarrow> Inl err
         | Inr particlesThatShouldHaveBeenCreatedThisSecond \<Rightarrow>
             if fless (particlesCreatedThisSecond e)
                  (of_int32 particlesThatShouldHaveBeenCreatedThisSecond)
             then (case to_int (fsub (of_int32 particlesThatShouldHaveBeenCreatedThisSecond)
                                  (particlesCreatedThisSecond e)) of
                     Inl err \<Rightarrow> Inl err
                   | Inr particlesToCreate \<Rightarrow>
                       create_particles rand_max rng (nat particlesToCreate) ek)
             else Inr ek)"

definition ParticleEmitter_OnUpdate ::
  "nat \<Rightarrow> (nat \<Rightarrow> nat) \<Rightarrow> ParticleEmitter \<times> nat \<Rightarrow> nat \<Rightarrow> float32
     \<Rightarrow> error + (ParticleEmitter \<times> nat) \<times> particle_draw list" where
  "ParticleEmitter_OnUpdate rand_max rng ek ticks deltaTime =
     (if \<not> emitter_active (fst ek) then Inr (ek, [])
      else
        case creation_phase rand_max rng ek ticks of
          Inl err \<Rightarrow> Inl err
        | Inr ek1 \<Rightarrow>
            (case update_pool (fst ek1) deltaTime of
               Inl err \<Rightarrow> Inl err
             | Inr pool \<Rightarrow>
                 (let e2 = (fst ek1)\<lparr>particlePool := pool\<rparr>
                  in case OnRender e2 of
                       Inl err \<Rightarrow> Inl err
                     | Inr frame \<Rightarrow> Inr ((e2, snd ek1), frame))))"

section \<open>Notions of the specification and concrete inputs\<close>

text \<open>A keyboard snapshot in which exactly the listed keys are held.\<close>

definition held :: "scancode list \<Rightarrow> keystates" where
  "held ks = (\<lambda>k. k \<in> set ks)"

text \<open>
  The direction a snapshot asks for, in the words of the specification: the first
  directional input in the priority order up, down, left, right (the screen's y axis
  points down, so up is \<open>(0, -1)\<close>).
\<close>

definition requested :: "keystates \<Rightarrow> (int \<times> int) option" where
  "requested ks =
     (if ks SDL_SCANCODE_W \<or> ks SDL_SCANCODE_UP then Some (0, - 1)
      else if ks SDL_SCANCODE_S \<or> ks SDL_SCANCODE_DOWN then Some (0, 1)
      else if ks SDL_SCANCODE_A \<or> ks SDL_SCANCODE_LEFT then Some (- 1, 0)
      else if ks SDL_SCANCODE_D \<or> ks SDL_SCANCODE_RIGHT then Some (1, 0)
      else None)"

definition velocity :: "SnakeGame \<Rightarrow> int \<times> int" where
  "velocity g = (xVelocity (snake g), yVelocity (snake g))"


text \<open>A scheduler whose numbers are whole: the accumulator is a whole number of
  milliseconds in \<open>[0, 1000)\<close> and the rate a whole number up to \<open>16384\<close>.\<close>

definition whole_window :: "SnakeGame \<Rightarrow> bool" where
  "whole_window g =
     (secondAccumulator g \<in> \<int> \<and> 0 \<le> secondAccumulator g \<and> secondAccumulator g < 1000
      \<and> movesPerSecond g \<in> \<int> \<and> 0 \<le> movesPerSecond g \<and> movesPerSecond g \<le> 16384)"

text \<open>The scheduler over the frames of a sequence of delta times: the game it leaves and
  the number of frames on which it has signalled a step.\<close>

fun run_schedule :: "SnakeGame \<Rightarrow> real list \<Rightarrow> SnakeGame \<times> nat" where
  "run_schedule g [] = (g, 0)"
| "run_schedule g (deltaTime # rest) =
     (let (g1, due) = schedule g deltaTime;
          (g2, n) = run_schedule g1 rest
      in (g2, (if due then 1 else 0) + n))"

declare run_schedule.simps(2) [simp del]

text \<open>A game that has just been started from the menu under the random stream that is
  constantly \<open>0\<close>: the apple is at \<open>(0, 0)\<close>.\<close>

definition zeros :: "nat \<Rightarrow> nat" where
  "zeros = (\<lambda>_. 0)"

definition moving_right :: SnakeGame where
  "moving_right = OnEvent zeros initial (held [SDL_SCANCODE_SPACE])"

text \<open>A game that has just been started under a random stream that begins \<open>9, 8, 3, 8\<close>
  and goes on with \<open>8\<close>: the apple is at \<open>(9, 8)\<close>, right in front of the head.\<close>

definition apple_ahead_stream :: "nat \<Rightarrow> nat" where
  "apple_ahead_stream k = (if k = 0 then 9 else if k = 2 then 3 else 8)"

definition apple_ahead :: SnakeGame where
  "apple_ahead = OnEvent apple_ahead_stream initial (held [SDL_SCANCODE_SPACE])"

text \<open>The same start under a random stream that begins \<open>9\<close> and goes on with \<open>8\<close> forever.\<close>

definition blocked_stream :: "nat \<Rightarrow> nat" where
  "blocked_stream k = (if k = 0 then 9 else 8)"

definition blocked :: SnakeGame where
  "blocked = OnEvent blocked_stream initial (held [SDL_SCANCODE_SPACE])"

text \<open>A game with the given counters, velocity, segments and apple, for concrete runs.\<close>

definition playing_game ::
  "GameState \<Rightarrow> int \<Rightarrow> real \<Rightarrow> int \<times> int \<Rightarrow> (int \<times> int) list \<Rightarrow> int \<times> int \<Rightarrow> SnakeGame" where
  "playing_game st performed accumulator v segs a =
     \<lparr>state = st, movesPerSecond = 10, movesPerformedThisSecond = performed,
      secondAccumulator = accumulator,
      snake = \<lparr>xVelocity = fst v, yVelocity = snd v,
               tail = map (\<lambda>(x, y). segment x y) segs, tailLength = int (length segs)\<rparr>,
      apple = \<lparr>Apple_x = fst a, Apple_y = snd a\<rparr>,
      scoreboard = \<lparr>score = 0, texture_score = 0\<rparr>,
      randCalls = 2\<rparr>"

text \<open>Games met in the concrete runs below: after one step to the right; after eating
  the apple of \<open>apple_ahead\<close>; a snake that has turned up, left and down and is about to run
  into itself; and that snake after the fatal step.\<close>

definition coiled :: SnakeGame where
  "coiled = playing_game PLAYING 2 116 (0, 1) [(7, 7), (8, 7), (8, 8), (7, 8), (6, 8), (5, 8)] (0, 0)"

definition crashed :: SnakeGame where
  "crashed = playing_game LOSE 3 216 (0, 1) [(7, 8), (7, 7), (8, 7), (8, 8), (7, 8), (6, 8)] (0, 0)"

definition moved_right :: SnakeGame where
  "moved_right = playing_game PLAYING 1 16 (1, 0) [(9, 8), (8, 8), (7, 8), (6, 8), (5, 8), (4, 8)] (0, 0)"

definition fed :: SnakeGame where
  "fed = (playing_game PLAYING 1 16 (1, 0) [(9, 8), (8, 8), (7, 8), (6, 8), (5, 8), (4, 8), (3, 8)] (3, 8))
           \<lparr>scoreboard := \<lparr>score = 1, texture_score = 1\<rparr>, randCalls := 4\<rparr>"

text \<open>A game that has just been started under the random stream \<open>9, 8, 9, 8, \<dots>\<close>: the
  apple is at \<open>(9, 8)\<close>, right in front of the head, and every later sample is that cell
  again.\<close>

definition stuck_stream :: "nat \<Rightarrow> nat" where
  "stuck_stream k = (if even k then 9 else 8)"

definition stuck :: SnakeGame where
  "stuck = OnEvent stuck_stream initial (held [SDL_SCANCODE_SPACE])"

text \<open>
  The coiled snake when the apple is at \<open>(7, 8)\<close>, the cell of its body that its next step
  runs into; the random stream \<open>7, 8, 7, 8, \<dots>\<close>, under which a game starts with that
  apple and every later sample is that cell again; the random stream \<open>7, 8, 7, 8, 0, 0, \<dots>\<close>;
  and the game after the fatal step under the latter.
\<close>

definition snared_stream :: "nat \<Rightarrow> nat" where
  "snared_stream k = (if even k then 7 else 8)"

definition escape_stream :: "nat \<Rightarrow> nat" where
  "escape_stream k = (if k < 4 then (if even k then 7 else 8) else 0)"

definition snared :: SnakeGame where
  "snared = playing_game PLAYING 2 116 (0, 1) [(7, 7), (8, 7), (8, 8), (7, 8), (6, 8), (5, 8)] (7, 8)"

definition caught :: SnakeGame where
  "caught = (playing_game LOSE 3 216 (0, 1)
               [(7, 8), (7, 7), (8, 7), (8, 8), (7, 8), (6, 8), (5, 8)] (0, 0))
              \<lparr>scoreboard := \<lparr>score = 1, texture_score = 1\<rparr>, randCalls := 6\<rparr>"

text \<open>The draw command of one segment (line 622).\<close>

definition draw_segment :: "Tail \<Rightarrow> draw" where
  "draw_segment t = Render SnakeTexture (Tail_x t * GRID_SIZE) (Tail_y t * GRID_SIZE)"

text \<open>The cell the respawn search tries when \<^verbatim>\<open>rand()\<close> has been called \<open>k\<close> times, and
  the test its inner loop makes on it: the cell is one of the first \<^verbatim>\<open>tailLength\<close>
  segments of the vector.\<close>

definition sample :: "(nat \<Rightarrow> nat) \<Rightarrow> nat \<Rightarrow> Apple" where
  "sample rng k =
     \<lparr>Apple_x = int (rng k) mod GRID_WIDTH, Apple_y = int (rng (Suc k)) mod GRID_HEIGHT\<rparr>"

definition checked :: "Snake \<Rightarrow> Tail list" where
  "checked sn = take (nat (tailLength sn)) (tail sn)"

definition cell :: "Apple \<Rightarrow> Tail" where
  "cell a = segment (Apple_x a) (Apple_y a)"

text \<open>The wrapped position the head moves to on a step (lines 553 to 574).\<close>

definition next_head :: "SnakeGame \<Rightarrow> Tail" where
  "next_head g = new_head (hd (tail (snake g))) (snake g)"

text \<open>The game after the collision loop and the insertion of the head (lines 576 to
  585), where \<open>found\<close> tells whether the loop has met the new head's cell.\<close>

definition with_head :: "SnakeGame \<Rightarrow> bool \<Rightarrow> SnakeGame" where
  "with_head g found =
     g\<lparr>state := (if found then LOSE else state g),
       snake := (snake g)\<lparr>tail := next_head g # tail (snake g)\<rparr>\<rparr>"

text \<open>The two ends of a step: the last segment removed (line 614), or the score counted,
  the apple moved to the cell \<open>a\<close> found after \<open>k\<close> calls of \<^verbatim>\<open>rand()\<close> and the recorded
  length incremented (lines 590 to 610).\<close>

definition shrunk :: "SnakeGame \<Rightarrow> SnakeGame" where
  "shrunk g = g\<lparr>snake := (snake g)\<lparr>tail := butlast (tail (snake g))\<rparr>\<rparr>"

definition grown :: "SnakeGame \<Rightarrow> Apple \<Rightarrow> nat \<Rightarrow> SnakeGame" where
  "grown g a k =
     g\<lparr>scoreboard := \<lparr>score = score (scoreboard g) + 1, texture_score = score (scoreboard g) + 1\<rparr>,
       apple := a, randCalls := k,
       snake := (snake g)\<lparr>tailLength := tailLength (snake g) + 1\<rparr>\<rparr>"

text \<open>The game after the scheduler, the collision loop and the insertion of the head, when
  the recorded length is the length of the vector.\<close>

definition stepped :: "SnakeGame \<Rightarrow> real \<Rightarrow> SnakeGame" where
  "stepped g dt = with_head (fst (schedule g dt)) (next_head g \<in> set (tail (snake g)))"

text \<open>The recorded length is the length of the vector, and a game that is being played
  has a snake.\<close>

definition consistent :: "SnakeGame \<Rightarrow> bool" where
  "consistent g =
     (tailLength (snake g) = int (length (tail (snake g)))
      \<and> (state g = PLAYING \<longrightarrow> tail (snake g) \<noteq> []))"

text \<open>Every segment is a cell of the grid and, the head of a lost game apart, no two
  segments share a cell.\<close>

definition in_grid :: "Tail \<Rightarrow> bool" where
  "in_grid t = (0 \<le> Tail_x t \<and> Tail_x t < GRID_WIDTH \<and> 0 \<le> Tail_y t \<and> Tail_y t < GRID_HEIGHT)"

definition compact :: "SnakeGame \<Rightarrow> bool" where
  "compact g =
     ((\<forall>t\<in>set (tail (snake g)). in_grid t)
      \<and> distinct (tl (tail (snake g)))
      \<and> (state g = PLAYING \<longrightarrow> distinct (tail (snake g))))"

text \<open>The frame that shows the apple, every segment of the vector and the score.\<close>

definition full_frame :: "SnakeGame \<Rightarrow> draw list" where
  "full_frame g =
     Render AppleTexture (Apple_x (apple g) * GRID_SIZE) (Apple_y (apple g) * GRID_SIZE)
       # map draw_segment (tail (snake g))
       @ [Render (ScoreTexture (texture_score (scoreboard g))) 10 10]"











text \<open>
  The emitters a program can hold: constructed by either constructor, then updated with
  delta times of the set \<open>D\<close>, its public fields written at will.
\<close>

inductive emitter_reachable ::
  "float32 set \<Rightarrow> nat \<Rightarrow> (nat \<Rightarrow> nat) \<Rightarrow> ParticleEmitter \<times> nat \<Rightarrow> bool"
  for D :: "float32 set" and rand_max :: nat and rng :: "nat \<Rightarrow> nat" where
  default:
    "emitter_reachable D rand_max rng (default_ParticleEmitter, k)"
| constructed:
    "new_ParticleEmitter ticks x y lifeInMs spd perSecond startSize endSize maxP = Inr e \<Longrightarrow>
     emitter_reachable D rand_max rng (e, k)"
| configured:
    "emitter_reachable D rand_max rng (e, k) \<Longrightarrow>
     emitter_reachable D rand_max rng
       (e\<lparr>emitter_active := a, newParticlesPerSecond := n, startOfSecond := s,
          particlesCreatedThisSecond := c\<rparr>, k)"
| updated:
    "emitter_reachable D rand_max rng ek \<Longrightarrow> deltaTime \<in> D \<Longrightarrow>
     ParticleEmitter_OnUpdate rand_max rng ek ticks deltaTime = Inr (ek', frame) \<Longrightarrow>
     emitter_reachable D rand_max rng ek'"







section \<open>Properties\<close>

subsection \<open>Rounding\<close>

text \<open>The numbers of a format, and the two facts that every argument about a rounding
  below rests on: a rounding never crosses a number of the format.\<close>

lemma round_even_le: "y \<le> of_int k \<Longrightarrow> round_even y \<le> k"
proof -
  assume y: "y \<le> of_int k"
  show ?thesis
  proof (cases "y = of_int k")
    case True
    then show ?thesis by (simp add: round_even_def)
  next
    case False
    with y have "y < of_int k" by simp
    then have "\<lfloor>y\<rfloor> < k" by (simp add: floor_less_iff)
    then show ?thesis by (auto simp: round_even_def Let_def)
  qed
qed

lemma round_even_ge: "of_int k \<le> y \<Longrightarrow> k \<le> round_even y"
proof -
  assume "of_int k \<le> y"
  then have "k \<le> \<lfloor>y\<rfloor>" by (simp add: le_floor_iff)
  then show ?thesis by (auto simp: round_even_def Let_def)
qed

lemma round_even_of_int [simp]: "round_even (of_int k) = k"
  by (simp add: round_even_def)

lemma floor_log2_iff:
  assumes "0 < x"
  shows "(\<lfloor>log 2 x\<rfloor> = E) = (2 powi E \<le> x \<and> x < 2 powi (E + 1))"
  using floor_log_eq_powr_iff[of x 2 E] assms
    powr_real_of_int'[of 2 E] powr_real_of_int'[of 2 "E + 1"]
  by simp

lemma floor_log2_bounds:
  assumes "x \<noteq> 0"
  shows "2 powi \<lfloor>log 2 \<bar>x\<bar>\<rfloor> \<le> \<bar>x\<bar>" "\<bar>x\<bar> < 2 powi (\<lfloor>log 2 \<bar>x\<bar>\<rfloor> + 1)"
  using floor_log2_iff[of "\<bar>x\<bar>" "\<lfloor>log 2 \<bar>x\<bar>\<rfloor>"] assms by simp_all

text \<open>A representable number at least as large in magnitude as the binade of x is a multiple of the unit of x.\<close>

lemma representable_multiple:
  assumes r: "(r::real) = of_int m * 2 powi k" "\<bar>m\<bar> < 2 ^ p" "emin \<le> k"
    and big: "2 powi E \<le> \<bar>r\<bar>"
  shows "\<exists>j. r = of_int j * 2 powi (max (E - (int p - 1)) emin)"
proof -
  let ?e = "max (E - (int p - 1)) emin"
  have "E - int p < k"
  proof (rule ccontr)
    assume "\<not> E - int p < k"
    then have k: "k \<le> E - int p" by simp
    have "\<bar>r\<bar> = real_of_int \<bar>m\<bar> * 2 powi k" by (simp add: r(1) abs_mult)
    also have "\<dots> < 2 ^ p * 2 powi k"
    proof -
      have "real_of_int \<bar>m\<bar> < real_of_int (2 ^ p)" using r(2) by (simp only: of_int_less_iff)
      then show ?thesis by simp
    qed
    also have "\<dots> \<le> 2 ^ p * 2 powi (E - int p)"
      using k by (intro mult_left_mono power_int_increasing) simp_all
    also have "\<dots> = 2 powi E"
      using power_int_add[of "2::real" "int p" "E - int p"] by simp
    finally show False using big by simp
  qed
  then have ke: "?e \<le> k" using r(3) by simp
  have "2 powi k = 2 powi (k - ?e) * (2::real) powi ?e"
    by (simp flip: power_int_add)
  also have "(2::real) powi (k - ?e) = of_int (2 ^ nat (k - ?e))"
    using ke by (simp add: power_int_nonneg_exp)
  finally have "r = of_int (m * 2 ^ nat (k - ?e)) * 2 powi ?e"
    by (simp add: r(1))
  then show ?thesis by blast
qed

lemma representable_small:
  assumes "representable p emin r" "\<bar>r\<bar> < 2 powi emin"
  shows "r = 0"
proof (rule ccontr)
  assume nz: "r \<noteq> 0"
  from assms(1) obtain m k where r: "r = of_int m * 2 powi k" "\<bar>m\<bar> < 2 ^ p" "emin \<le> k"
    by (auto simp: representable_def)
  from nz r(1) have "m \<noteq> 0" by auto
  then have "1 \<le> \<bar>m\<bar>" by simp
  then have "1 \<le> real_of_int \<bar>m\<bar>" by (simp only: of_int_1_le_iff)
  then have "1 * 2 powi k \<le> real_of_int \<bar>m\<bar> * (2::real) powi k"
    by (intro mult_right_mono) simp_all
  moreover have "(2::real) powi emin \<le> 2 powi k"
    using r(3) by (intro power_int_increasing) simp_all
  moreover have "\<bar>r\<bar> = real_of_int \<bar>m\<bar> * 2 powi k" by (simp add: r(1) abs_mult)
  ultimately have "2 powi emin \<le> \<bar>r\<bar>" by linarith
  with assms(2) show False by simp
qed

lemma float_round_le:
  assumes rep: "representable p emin r" and le: "x \<le> r" and p: "0 < p"
  shows "float_round p emin x \<le> r"
proof (cases "x = 0")
  case True
  with le show ?thesis by (simp add: float_round_def)
next
  case nz: False
  let ?E = "\<lfloor>log 2 \<bar>x\<bar>\<rfloor>"
  let ?e = "float_exponent p emin x"
  let ?u = "(2::real) powi ?e"
  have u: "0 < ?u" by simp
  have e: "?e = max (?E - (int p - 1)) emin" by (simp add: float_exponent_def)
  note b = floor_log2_bounds[OF nz]
  have fr: "float_round p emin x = of_int (round_even (x / ?u)) * ?u"
    using nz by (simp add: float_round_def)
  have via: "float_round p emin x \<le> of_int j * ?u" if "x \<le> of_int j * ?u" for j
  proof -
    from that u have "x / ?u \<le> of_int j" by (simp add: pos_divide_le_eq)
    then have "round_even (x / ?u) \<le> j" by (rule round_even_le)
    then have "real_of_int (round_even (x / ?u)) \<le> real_of_int j" by (simp only: of_int_le_iff)
    then show ?thesis using u by (simp add: fr mult_right_mono)
  qed
  from rep obtain m k where r: "r = of_int m * 2 powi k" "\<bar>m\<bar> < 2 ^ p" "emin \<le> k"
    by (auto simp: representable_def)
  show ?thesis
  proof (cases "2 powi ?E \<le> \<bar>r\<bar>")
    case True
    from representable_multiple[OF r True] obtain j where "r = of_int j * ?u"
      by (auto simp: e)
    with via[of j] le show ?thesis by simp
  next
    case small: False
    then have rs: "\<bar>r\<bar> < 2 powi ?E" by simp
    have xneg: "x \<le> - (2 powi ?E)"
    proof (rule ccontr)
      assume "\<not> x \<le> - (2 powi ?E)"
      with b(1) have "2 powi ?E \<le> x" by (simp add: abs_if split: if_splits)
      with le rs show False by (simp add: abs_if split: if_splits)
    qed
    show ?thesis
    proof (cases "emin \<le> ?E")
      case True
      then have ee: "?e \<le> ?E" using p by (simp add: e)
      have "(2::real) powi ?E = 2 powi (?E - ?e) * 2 powi ?e" by (simp flip: power_int_add)
      also have "(2::real) powi (?E - ?e) = of_int (2 ^ nat (?E - ?e))"
        using ee by (simp add: power_int_nonneg_exp)
      finally have "- (2 powi ?E) = of_int (- (2 ^ nat (?E - ?e))) * ?u" by simp
      with via[of "- (2 ^ nat (?E - ?e))"] xneg
      have "float_round p emin x \<le> - (2 powi ?E)" by simp
      with rs show ?thesis by (simp add: abs_if split: if_splits)
    next
      case False
      then have "(2::real) powi ?E \<le> 2 powi emin" by (intro power_int_increasing) simp_all
      with rs have "\<bar>r\<bar> < 2 powi emin" by simp
      from representable_small[OF rep this] have r0: "r = 0" .
      from via[of 0] le r0 show ?thesis by simp
    qed
  qed
qed


lemma float_round_ge:
  assumes rep: "representable p emin r" and le: "r \<le> x" and p: "0 < p"
  shows "r \<le> float_round p emin x"
proof (cases "x = 0")
  case True
  with le show ?thesis by (simp add: float_round_def)
next
  case nz: False
  let ?E = "\<lfloor>log 2 \<bar>x\<bar>\<rfloor>"
  let ?e = "float_exponent p emin x"
  let ?u = "(2::real) powi ?e"
  have u: "0 < ?u" by simp
  have e: "?e = max (?E - (int p - 1)) emin" by (simp add: float_exponent_def)
  note b = floor_log2_bounds[OF nz]
  have fr: "float_round p emin x = of_int (round_even (x / ?u)) * ?u"
    using nz by (simp add: float_round_def)
  have via: "of_int j * ?u \<le> float_round p emin x" if "of_int j * ?u \<le> x" for j
  proof -
    from that u have "of_int j \<le> x / ?u" by (simp add: pos_le_divide_eq)
    then have "j \<le> round_even (x / ?u)" by (rule round_even_ge)
    then have "real_of_int j \<le> real_of_int (round_even (x / ?u))" by (simp only: of_int_le_iff)
    then show ?thesis using u by (simp add: fr mult_right_mono)
  qed
  from rep obtain m k where r: "r = of_int m * 2 powi k" "\<bar>m\<bar> < 2 ^ p" "emin \<le> k"
    by (auto simp: representable_def)
  show ?thesis
  proof (cases "2 powi ?E \<le> \<bar>r\<bar>")
    case True
    from representable_multiple[OF r True] obtain j where "r = of_int j * ?u"
      by (auto simp: e)
    with via[of j] le show ?thesis by simp
  next
    case small: False
    then have rs: "\<bar>r\<bar> < 2 powi ?E" by simp
    have xpos: "2 powi ?E \<le> x"
    proof (rule ccontr)
      assume "\<not> 2 powi ?E \<le> x"
      with b(1) have "x \<le> - (2 powi ?E)" by (simp add: abs_if split: if_splits)
      with le rs show False by (simp add: abs_if split: if_splits)
    qed
    show ?thesis
    proof (cases "emin \<le> ?E")
      case True
      then have ee: "?e \<le> ?E" using p by (simp add: e)
      have "(2::real) powi ?E = 2 powi (?E - ?e) * 2 powi ?e" by (simp flip: power_int_add)
      also have "(2::real) powi (?E - ?e) = of_int (2 ^ nat (?E - ?e))"
        using ee by (simp add: power_int_nonneg_exp)
      finally have "2 powi ?E = of_int (2 ^ nat (?E - ?e)) * ?u" by simp
      with via[of "2 ^ nat (?E - ?e)"] xpos
      have "2 powi ?E \<le> float_round p emin x" by simp
      with rs show ?thesis by (simp add: abs_if split: if_splits)
    next
      case False
      then have "(2::real) powi ?E \<le> 2 powi emin" by (intro power_int_increasing) simp_all
      with rs have "\<bar>r\<bar> < 2 powi emin" by simp
      from representable_small[OF rep this] have r0: "r = 0" .
      from via[of 0] le r0 show ?thesis by simp
    qed
  qed
qed

lemma float_round_representable:
  assumes "representable p emin r" "0 < p"
  shows "float_round p emin r = r"
  using float_round_le[OF assms(1) _ assms(2), of r] float_round_ge[OF assms(1) _ assms(2), of r]
  by simp

lemma representable_int:
  assumes "\<bar>n\<bar> < 2 ^ p" "emin \<le> 0"
  shows "representable p emin (of_int n)"
  unfolding representable_def using assms by (intro exI[of _ n] exI[of _ 0]) simp

lemma representable_scaled:
  assumes "\<bar>n\<bar> < 2 ^ p" "emin \<le> k"
  shows "representable p emin (of_int n * 2 powi k)"
  unfolding representable_def using assms by blast



text \<open>Evaluation of a rounding when the binade is known.\<close>

lemma float_round_eval:
  assumes "2 powi E \<le> \<bar>x\<bar>" "\<bar>x\<bar> < 2 powi (E + 1)"
  shows "float_round p emin x
       = of_int (round_even (x / 2 powi max (E - (int p - 1)) emin)) * 2 powi max (E - (int p - 1)) emin"
proof -
  have nz: "x \<noteq> 0"
  proof
    assume "x = 0"
    with assms(1) have "(2::real) powi E \<le> 0" by simp
    moreover have "(0::real) < 2 powi E" by simp
    ultimately show False by linarith
  qed
  then have "0 < \<bar>x\<bar>" by simp
  from floor_log2_iff[OF this, of E] assms have "\<lfloor>log 2 \<bar>x\<bar>\<rfloor> = E" by simp
  then show ?thesis using nz by (simp add: float_round_def float_exponent_def)
qed


lemma round32_le: "representable 24 (- 149) r \<Longrightarrow> x \<le> r \<Longrightarrow> round32 x \<le> r"
  unfolding round32_def by (rule float_round_le) simp_all

lemma round32_ge: "representable 24 (- 149) r \<Longrightarrow> r \<le> x \<Longrightarrow> r \<le> round32 x"
  unfolding round32_def by (rule float_round_ge) simp_all

lemma round32_representable: "representable 24 (- 149) r \<Longrightarrow> round32 r = r"
  unfolding round32_def by (rule float_round_representable) simp_all

lemma representable32_int: "\<bar>n\<bar> \<le> 16777216 \<Longrightarrow> representable 24 (- 149) (of_int n)"
proof -
  assume n: "\<bar>n\<bar> \<le> 16777216"
  show ?thesis
  proof (cases "\<bar>n\<bar> < 16777216")
    case True
    then show ?thesis by (intro representable_int) simp_all
  next
    case False
    with n have "n = 16777216 \<or> n = - 16777216" by (simp add: abs_if split: if_splits)
    then have "real_of_int n = of_int (n div 16777216) * 2 powi 24 \<and> \<bar>n div 16777216\<bar> < 2 ^ 24"
      by auto
    then show ?thesis
      using representable_scaled[of "n div 16777216" 24 "- 149" 24] by simp
  qed
qed

lemma round32_int: "\<bar>n\<bar> \<le> 16777216 \<Longrightarrow> round32 (of_int n) = of_int n"
  by (rule round32_representable[OF representable32_int])


lemma round32_numeral: "(numeral n :: int) \<le> 16777216 \<Longrightarrow> round32 (numeral n) = numeral n"
  using round32_int[of "numeral n"] by simp

text \<open>The test of the scheduler on whole numbers: the quotient by 1000 is rounded, but
  never across the count it is compared with.\<close>

lemma round32_quotient_less:
  assumes P: "0 \<le> P" "P \<le> 16384000"
  shows "(round32 (of_int c) < round32 (of_int P / 1000)) = (c * 1000 < P)"
proof (cases "c * 1000 < P")
  case True
  then have c: "c < 16384" using P(2) by simp
  have q0: "0 \<le> round32 (of_int P / 1000)"
    using round32_ge[OF representable32_int[of 0], of "of_int P / 1000"] P(1) by simp
  show ?thesis
  proof (cases "0 \<le> c")
    case nonneg: True
    have eq: "of_int (c * 1024 + 1) * 2 powi (- 10) = real_of_int c + 1 / 1024"
      by (simp add: power_int_minus field_simps)
    have "representable 24 (- 149) (of_int (c * 1024 + 1) * 2 powi (- 10))"
      using nonneg c by (intro representable_scaled) simp_all
    then have rep: "representable 24 (- 149) (real_of_int c + 1 / 1024)"
      unfolding eq .
    have "c * 1000 + 1 \<le> P" using True by simp
    then have "real_of_int (c * 1000 + 1) \<le> real_of_int P" by (simp only: of_int_le_iff)
    then have "real_of_int c + 1 / 1024 \<le> of_int P / 1000" by simp
    from round32_ge[OF rep this] have "real_of_int c < round32 (of_int P / 1000)" by simp
    moreover have "round32 (of_int c) = of_int c"
      using nonneg c by (intro round32_int) simp
    ultimately show ?thesis using True by simp
  next
    case False
    then have "c \<le> - 1" by simp
    then have "real_of_int c \<le> of_int (- 1)" by (simp only: of_int_le_iff)
    from round32_le[OF representable32_int this] have "round32 (of_int c) \<le> - 1" by simp
    with q0 True show ?thesis by simp
  qed
next
  case False
  then have le: "P \<le> c * 1000" by simp
  then have "real_of_int P \<le> real_of_int (c * 1000)" by (simp only: of_int_le_iff)
  then have q: "of_int P / 1000 \<le> real_of_int c" by simp
  show ?thesis
  proof (cases "c \<le> 16384")
    case True
    have c0: "0 \<le> c" using le P(1) by simp
    have "\<bar>c\<bar> \<le> 16777216" using True c0 by simp
    then have rep: "representable 24 (- 149) (real_of_int c)"
      by (rule representable32_int)
    from round32_le[OF rep q] round32_representable[OF rep] False show ?thesis by simp
  next
    case big: False
    then have "16384 \<le> c" by simp
    then have "real_of_int 16384 \<le> real_of_int c" by (simp only: of_int_le_iff)
    from round32_ge[OF representable32_int this] have 1: "16384 \<le> round32 (of_int c)" by simp
    have "real_of_int P \<le> real_of_int 16384000" using P(2) by (simp only: of_int_le_iff)
    then have "of_int P / 1000 \<le> real_of_int 16384" by simp
    from round32_le[OF representable32_int this] have "round32 (of_int P / 1000) \<le> 16384" by simp
    with 1 False show ?thesis by simp
  qed
qed

subsection \<open>Constants and small facts\<close>

lemma GRID_WIDTH_eq: "GRID_WIDTH = 20"
  by (simp add: GRID_WIDTH_def WIDTH_def GRID_SIZE_def)

lemma GRID_HEIGHT_eq: "GRID_HEIGHT = 15"
  by (simp add: GRID_HEIGHT_def HEIGHT_def GRID_SIZE_def)

lemma moving_right_fields:
  "secondAccumulator moving_right = 0" "movesPerformedThisSecond moving_right = 0"
  "movesPerSecond moving_right = 10" "state moving_right = PLAYING"
  "xVelocity (snake moving_right) = 1" "yVelocity (snake moving_right) = 0"
  by (simp_all add: moving_right_def OnEvent_def OnEventMenu_def held_def InitPlayingState_def
      Let_def initial_def)

subsection \<open>The toroidal wrap\<close>

text \<open>
  Claim C6. The per-coordinate wrap sends every value above \<open>gridDimension - 1\<close> to \<open>0\<close>,
  every negative value to \<open>gridDimension - 1\<close>, and leaves the values of
  \<open>[0, gridDimension)\<close> unchanged; it is idempotent and its result is always in range. For
  the head: stepping off the right or bottom edge gives column or row \<open>0\<close>, stepping off
  the left or top edge gives the last column or row.
\<close>

theorem wrap_toroidal:
  assumes "1 \<le> gridDimension"
  shows "(gridDimension - 1 < v \<longrightarrow> wrap gridDimension v = 0)
       \<and> (v < 0 \<longrightarrow> wrap gridDimension v = gridDimension - 1)
       \<and> (0 \<le> v \<and> v < gridDimension \<longrightarrow> wrap gridDimension v = v)
       \<and> wrap gridDimension (wrap gridDimension v) = wrap gridDimension v
       \<and> 0 \<le> wrap gridDimension v \<and> wrap gridDimension v < gridDimension
       \<and> (Tail_x h = GRID_WIDTH - 1 \<and> xVelocity sn = 1 \<longrightarrow> Tail_x (new_head h sn) = 0)
       \<and> (Tail_y h = GRID_HEIGHT - 1 \<and> yVelocity sn = 1 \<longrightarrow> Tail_y (new_head h sn) = 0)
       \<and> (Tail_x h = 0 \<and> xVelocity sn = - 1 \<longrightarrow> Tail_x (new_head h sn) = GRID_WIDTH - 1)
       \<and> (Tail_y h = 0 \<and> yVelocity sn = - 1 \<longrightarrow> Tail_y (new_head h sn) = GRID_HEIGHT - 1)"
proof -
  have w: "(gridDimension - 1 < v \<longrightarrow> wrap gridDimension v = 0)
       \<and> (v < 0 \<longrightarrow> wrap gridDimension v = gridDimension - 1)
       \<and> (0 \<le> v \<and> v < gridDimension \<longrightarrow> wrap gridDimension v = v)
       \<and> wrap gridDimension (wrap gridDimension v) = wrap gridDimension v
       \<and> 0 \<le> wrap gridDimension v \<and> wrap gridDimension v < gridDimension"
    using assms by (auto simp: wrap_def Let_def)
  have n: "(Tail_x h = GRID_WIDTH - 1 \<and> xVelocity sn = 1 \<longrightarrow> Tail_x (new_head h sn) = 0)
       \<and> (Tail_y h = GRID_HEIGHT - 1 \<and> yVelocity sn = 1 \<longrightarrow> Tail_y (new_head h sn) = 0)
       \<and> (Tail_x h = 0 \<and> xVelocity sn = - 1 \<longrightarrow> Tail_x (new_head h sn) = GRID_WIDTH - 1)
       \<and> (Tail_y h = 0 \<and> yVelocity sn = - 1 \<longrightarrow> Tail_y (new_head h sn) = GRID_HEIGHT - 1)"
    by (simp add: new_head_def segment_def wrap_def GRID_WIDTH_eq GRID_HEIGHT_eq)
  from w n show ?thesis by simp
qed

theorem wrap_toroidal_witness:
  "wrap 20 20 = 0 \<and> wrap 20 (- 1) = 19 \<and> wrap 20 7 = 7 \<and> wrap 20 (wrap 20 20) = wrap 20 20
   \<and> Tail_x (new_head (segment 19 3) (snake moving_right)) = 0
   \<and> Tail_y (new_head (segment 4 0) ((snake moving_right)\<lparr>xVelocity := 0, yVelocity := - 1\<rparr>)) = 14"
proof -
  have G: "(1::int) \<le> 20" by simp
  have "wrap 20 20 = 0"
    using wrap_toroidal[OF G, of 20, THEN conjunct1] by simp
  moreover have "wrap 20 (- 1) = 19"
    using wrap_toroidal[OF G, of "- 1", THEN conjunct2, THEN conjunct1] by simp
  moreover have "wrap 20 7 = 7"
    using wrap_toroidal[OF G, of 7, THEN conjunct2, THEN conjunct2, THEN conjunct1] by simp
  moreover have "wrap 20 (wrap 20 20) = wrap 20 20"
    using wrap_toroidal[OF G, of 20] by blast
  moreover have "Tail_x (new_head (segment 19 3) (snake moving_right)) = 0"
    using wrap_toroidal[OF G, of 0 "segment 19 3" "snake moving_right"]
    by (simp add: segment_def GRID_WIDTH_eq moving_right_fields)
  moreover have "Tail_y (new_head (segment 4 0) ((snake moving_right)\<lparr>xVelocity := 0, yVelocity := - 1\<rparr>)) = 14"
    using wrap_toroidal[OF G, of 0 "segment 4 0" "(snake moving_right)\<lparr>xVelocity := 0, yVelocity := - 1\<rparr>"]
    by (simp add: segment_def GRID_HEIGHT_eq)
  ultimately show ?thesis by blast
qed

subsection \<open>Direction changes\<close>

lemma OnEventPlaying_requested:
  "OnEventPlaying g ks =
     (case requested ks of
        Some (dx, dy) \<Rightarrow>
          if (dx = 0 \<and> yVelocity (snake g) = - dy) \<or> (dy = 0 \<and> xVelocity (snake g) = - dx)
          then g else set_velocity g dx dy
      | None \<Rightarrow> if ks SDL_SCANCODE_ESCAPE then g\<lparr>state := MENU\<rparr> else g)"
  by (simp add: requested_def OnEventPlaying_def)

lemma requested_unit:
  "requested ks = Some (dx, dy) \<Longrightarrow>
     (dx = 0 \<and> (dy = 1 \<or> dy = - 1)) \<or> (dy = 0 \<and> (dx = 1 \<or> dx = - 1))"
  by (simp add: requested_def split: if_splits)

text \<open>
  Claim C8. In the PLAYING input handler, for every velocity and every key snapshot that
  holds a directional key: a request opposite to the current velocity leaves the game
  unchanged; a request perpendicular to the current velocity becomes the velocity; the
  handler either changes nothing or sets the velocity to the requested direction; and
  the outcome depends on the snapshot only through the first directional input in the
  order up, down, left, right.
\<close>

theorem direction_change:
  assumes "requested ks = Some (dx, dy)"
  shows "(dx = - xVelocity (snake g) \<and> dy = - yVelocity (snake g) \<longrightarrow> OnEventPlaying g ks = g)
       \<and> (dx * xVelocity (snake g) + dy * yVelocity (snake g) = 0
            \<longrightarrow> velocity (OnEventPlaying g ks) = (dx, dy))
       \<and> (OnEventPlaying g ks = g \<or> OnEventPlaying g ks = set_velocity g dx dy)
       \<and> (\<forall>ks'. requested ks' = requested ks \<longrightarrow> OnEventPlaying g ks' = OnEventPlaying g ks)"
proof -
  note u = requested_unit[OF assms]
  have e: "OnEventPlaying g ks =
      (if (dx = 0 \<and> yVelocity (snake g) = - dy) \<or> (dy = 0 \<and> xVelocity (snake g) = - dx)
       then g else set_velocity g dx dy)"
    by (simp add: OnEventPlaying_requested assms)
  have a: "dx = - xVelocity (snake g) \<and> dy = - yVelocity (snake g) \<longrightarrow> OnEventPlaying g ks = g"
    using u by (auto simp: e)
  have b: "dx * xVelocity (snake g) + dy * yVelocity (snake g) = 0
            \<longrightarrow> velocity (OnEventPlaying g ks) = (dx, dy)"
    using u by (auto simp: e velocity_def set_velocity_def)
  have c: "OnEventPlaying g ks = g \<or> OnEventPlaying g ks = set_velocity g dx dy"
    by (simp add: e)
  have d: "\<forall>ks'. requested ks' = requested ks \<longrightarrow> OnEventPlaying g ks' = OnEventPlaying g ks"
    by (simp add: OnEventPlaying_requested assms)
  from a b c d show ?thesis by blast
qed

theorem direction_change_witness:
  "velocity moving_right = (1, 0)
   \<and> OnEventPlaying moving_right (held [SDL_SCANCODE_A, SDL_SCANCODE_D]) = moving_right
   \<and> velocity (OnEventPlaying moving_right (held [SDL_SCANCODE_W, SDL_SCANCODE_LEFT])) = (0, - 1)
   \<and> velocity (OnEventPlaying moving_right (held [SDL_SCANCODE_DOWN])) = (0, 1)
   \<and> OnEventPlaying moving_right (held [SDL_SCANCODE_UP, SDL_SCANCODE_D])
       = OnEventPlaying moving_right (held [SDL_SCANCODE_W, SDL_SCANCODE_LEFT])"
proof -
  note v = moving_right_fields(5,6)
  have r1: "requested (held [SDL_SCANCODE_A, SDL_SCANCODE_D]) = Some (- 1, 0)"
    and r2: "requested (held [SDL_SCANCODE_W, SDL_SCANCODE_LEFT]) = Some (0, - 1)"
    and r3: "requested (held [SDL_SCANCODE_DOWN]) = Some (0, 1)"
    and r4: "requested (held [SDL_SCANCODE_UP, SDL_SCANCODE_D])
               = requested (held [SDL_SCANCODE_W, SDL_SCANCODE_LEFT])"
    by (simp_all add: requested_def held_def)
  have "OnEventPlaying moving_right (held [SDL_SCANCODE_A, SDL_SCANCODE_D]) = moving_right"
    using direction_change[OF r1, of moving_right, THEN conjunct1] v by simp
  moreover
  have "velocity (OnEventPlaying moving_right (held [SDL_SCANCODE_W, SDL_SCANCODE_LEFT])) = (0, - 1)"
    using direction_change[OF r2, of moving_right, THEN conjunct2, THEN conjunct1] v by simp
  moreover have "velocity (OnEventPlaying moving_right (held [SDL_SCANCODE_DOWN])) = (0, 1)"
    using direction_change[OF r3, of moving_right, THEN conjunct2, THEN conjunct1] v by simp
  moreover have "OnEventPlaying moving_right (held [SDL_SCANCODE_UP, SDL_SCANCODE_D])
       = OnEventPlaying moving_right (held [SDL_SCANCODE_W, SDL_SCANCODE_LEFT])"
    using direction_change[OF r2, of moving_right, THEN conjunct2, THEN conjunct2, THEN conjunct2]
      r4 by blast
  moreover have "velocity moving_right = (1, 0)"
    using v by (simp add: velocity_def)
  ultimately show ?thesis by simp
qed

subsection \<open>The move scheduler\<close>

text \<open>
  On whole numbers of milliseconds and a whole rate no rounding of the scheduler changes
  anything: the sum and the product are whole numbers below \<open>2 ^ 24\<close>, and the rounded
  quotient compares with the count as the exact one does.
\<close>

lemma schedule_whole:
  assumes acc: "secondAccumulator g \<in> \<int>" and dt: "deltaTime \<in> \<int>"
    and sum: "0 \<le> secondAccumulator g + deltaTime" "secondAccumulator g + deltaTime < 16777216"
    and rate: "movesPerSecond g \<in> \<int>" "0 \<le> movesPerSecond g" "movesPerSecond g \<le> 16384"
  shows "schedule g deltaTime =
     (let g1 = g\<lparr>secondAccumulator := secondAccumulator g + deltaTime\<rparr>;
          g2 = (if secondAccumulator g1 \<ge> 1000
                then g1\<lparr>secondAccumulator := 0, movesPerformedThisSecond := 0\<rparr>
                else g1)
      in if real_of_int (movesPerformedThisSecond g2)
              < secondAccumulator g2 * movesPerSecond g2 / 1000
         then (g2\<lparr>movesPerformedThisSecond := movesPerformedThisSecond g2 + 1\<rparr>, True)
         else (g2, False))"
proof -
  from acc dt have "secondAccumulator g + deltaTime \<in> \<int>" by (rule Ints_add)
  then obtain a where a: "secondAccumulator g + deltaTime = real_of_int a" by (auto elim: Ints_cases)
  from rate(1) obtain R where R: "movesPerSecond g = real_of_int R" by (auto elim: Ints_cases)
  have a0: "0 \<le> a" "a < 16777216" using sum by (simp_all add: a)
  have R0: "0 \<le> R" "R \<le> 16384" using rate(2,3) by (simp_all add: R)
  have r1: "round32 (real_of_int a) = real_of_int a"
    using a0 by (intro round32_int) simp
  have z: "round32 0 = 0" using round32_int[of 0] by simp
  show ?thesis
  proof (cases "1000 \<le> a")
    case True
    then show ?thesis by (simp add: schedule_def Let_def r1 a z)
  next
    case False
    have "a * R \<le> 1000 * R" using False R0(1) by (intro mult_right_mono) simp_all
    then have P: "0 \<le> a * R" "a * R \<le> 16384000" using a0(1) R0 by simp_all
    have "round32 (real_of_int (a * R)) = real_of_int (a * R)"
      using P by (intro round32_int) simp
    then have r2: "round32 (real_of_int a * real_of_int R) = real_of_int a * real_of_int R"
      by simp
    have cmp: "(round32 (real_of_int c) < round32 (real_of_int a * real_of_int R / 1000))
             = (real_of_int c < real_of_int a * real_of_int R / 1000)" for c
    proof -
      have "(c * 1000 < a * R) = (real_of_int (c * 1000) < real_of_int (a * R))"
        by (simp only: of_int_less_iff)
      then show ?thesis using round32_quotient_less[OF P, of c] by simp
    qed
    from False show ?thesis by (simp add: schedule_def Let_def r1 a R r2 cmp)
  qed
qed




subsection \<open>The loops over the segments\<close>

lemma scan_tail_general:
  "n \<le> int (length ts) \<Longrightarrow>
   scan_tail ts n px py i found
     = Inr (found \<or> (\<exists>j. i \<le> j \<and> int j < n \<and> Tail_x (ts ! j) = px \<and> Tail_y (ts ! j) = py))"
proof (induction ts n px py i found rule: scan_tail.induct)
  case (1 ts n px py i found)
  show ?case
  proof (cases "int i < n")
    case True
    then have il: "i < length ts" using "1.prems" by simp
    have split: "(\<exists>j. i \<le> j \<and> int j < n \<and> Tail_x (ts ! j) = px \<and> Tail_y (ts ! j) = py)
        = ((Tail_x (ts ! i) = px \<and> Tail_y (ts ! i) = py)
            \<or> (\<exists>j. Suc i \<le> j \<and> int j < n \<and> Tail_x (ts ! j) = px \<and> Tail_y (ts ! j) = py))"
      using True by (metis Suc_leI le_neq_implies_less order_refl Suc_leD)
    show ?thesis
      using "1.IH"[OF True il "1.prems"] True il
      by (subst scan_tail.simps) (simp add: split)
  next
    case False
    then show ?thesis
      by (subst scan_tail.simps) auto
  qed
qed

lemma scan_tail_set:
  assumes "n \<le> int (length ts)"
  shows "scan_tail ts n px py 0 False = Inr (segment px py \<in> set (take (nat n) ts))"
proof -
  have "(\<exists>j. int j < n \<and> Tail_x (ts ! j) = px \<and> Tail_y (ts ! j) = py)
      = (segment px py \<in> set (take (nat n) ts))"
  proof
    assume "\<exists>j. int j < n \<and> Tail_x (ts ! j) = px \<and> Tail_y (ts ! j) = py"
    then obtain j where j: "int j < n" "Tail_x (ts ! j) = px" "Tail_y (ts ! j) = py" by blast
    then have "j < length (take (nat n) ts)" using assms by simp
    moreover have "take (nat n) ts ! j = segment px py"
      using j by (simp add: segment_def)
    ultimately show "segment px py \<in> set (take (nat n) ts)"
      by (metis nth_mem)
  next
    assume "segment px py \<in> set (take (nat n) ts)"
    then obtain j where j: "j < length (take (nat n) ts)" "take (nat n) ts ! j = segment px py"
      by (auto simp: in_set_conv_nth)
    then have "int j < n" by (simp add: zless_nat_eq_int_zless)
    moreover have "ts ! j = segment px py" using j by simp
    ultimately show "\<exists>j. int j < n \<and> Tail_x (ts ! j) = px \<and> Tail_y (ts ! j) = py"
      by (auto simp: segment_def)
  qed
  then show ?thesis
    using scan_tail_general[OF assms, of px py 0 False] by simp
qed

lemma render_tail_general:
  "n \<le> int (length ts) \<Longrightarrow>
   render_tail ts n i frame = Inr (frame @ map draw_segment (drop i (take (nat n) ts)))"
proof (induction ts n i frame rule: render_tail.induct)
  case (1 ts n i frame)
  show ?case
  proof (cases "int i < n")
    case True
    then have il: "i < length ts" using "1.prems" by simp
    have it: "i < length (take (nat n) ts)" using True il by simp
    have d: "drop i (take (nat n) ts) = ts ! i # drop (Suc i) (take (nat n) ts)"
      using Cons_nth_drop_Suc[OF it] True by simp
    show ?thesis
      using "1.IH"[OF True il "1.prems"] True il
      by (subst render_tail.simps) (simp add: d draw_segment_def)
  next
    case False
    then show ?thesis
      by (subst render_tail.simps) simp
  qed
qed

subsection \<open>The respawn search\<close>

lemma respawn_unfold:
  assumes "tailLength sn \<le> int (length (tail sn))"
  shows "respawn rng sn k =
           (if cell (sample rng k) \<in> set (checked sn) then respawn rng sn (k + 2)
            else Some (Inr (sample rng k, k + 2)))"
  by (subst respawn.simps)
     (simp add: scan_tail_set[OF assms] sample_def cell_def checked_def Let_def)

lemma respawn_first_free:
  assumes "tailLength sn \<le> int (length (tail sn))"
  shows "cell (sample rng (k + 2 * n)) \<notin> set (checked sn) \<Longrightarrow>
         (\<And>m. m < n \<Longrightarrow> cell (sample rng (k + 2 * m)) \<in> set (checked sn)) \<Longrightarrow>
         respawn rng sn k = Some (Inr (sample rng (k + 2 * n), k + 2 * n + 2))"
proof (induction n arbitrary: k)
  case 0
  then show ?case by (subst respawn_unfold[OF assms]) simp
next
  case (Suc n)
  have occ: "cell (sample rng k) \<in> set (checked sn)"
    using Suc.prems(2)[of 0] by simp
  have "respawn rng sn (k + 2) = Some (Inr (sample rng (k + 2 + 2 * n), k + 2 + 2 * n + 2))"
  proof (rule Suc.IH)
    show "cell (sample rng (k + 2 + 2 * n)) \<notin> set (checked sn)"
      using Suc.prems(1) by (simp add: add.commute add.left_commute)
    show "\<And>m. m < n \<Longrightarrow> cell (sample rng (k + 2 + 2 * m)) \<in> set (checked sn)"
      using Suc.prems(2)[of "Suc _"] by (simp add: add.commute add.left_commute)
  qed
  then show ?case
    by (subst respawn_unfold[OF assms]) (simp add: occ add.commute add.left_commute)
qed

lemma respawn_result:
  assumes "respawn rng sn k = Some r"
  shows "tailLength sn \<le> int (length (tail sn)) \<longrightarrow>
         (\<exists>n. r = Inr (sample rng (k + 2 * n), k + 2 * n + 2)
              \<and> cell (sample rng (k + 2 * n)) \<notin> set (checked sn)
              \<and> (\<forall>m<n. cell (sample rng (k + 2 * m)) \<in> set (checked sn)))"
proof (rule respawn.raw_induct[where P = "\<lambda>rng sn k r. tailLength sn \<le> int (length (tail sn)) \<longrightarrow>
         (\<exists>n. r = Inr (sample rng (k + 2 * n), k + 2 * n + 2)
              \<and> cell (sample rng (k + 2 * n)) \<notin> set (checked sn)
              \<and> (\<forall>m<n. cell (sample rng (k + 2 * m)) \<in> set (checked sn)))", OF _ assms])
  fix respawn' :: "(nat \<Rightarrow> nat) \<Rightarrow> Snake \<Rightarrow> nat \<Rightarrow> (error + Apple \<times> nat) option"
  fix rng sn k r
  assume IH: "\<And>rng sn k r. respawn' rng sn k = Some r \<Longrightarrow>
         tailLength sn \<le> int (length (tail sn)) \<longrightarrow>
         (\<exists>n. r = Inr (sample rng (k + 2 * n), k + 2 * n + 2)
              \<and> cell (sample rng (k + 2 * n)) \<notin> set (checked sn)
              \<and> (\<forall>m<n. cell (sample rng (k + 2 * m)) \<in> set (checked sn)))"
  assume B: "(let a = \<lparr>Apple_x = int (rng k) mod GRID_WIDTH, Apple_y = int (rng (Suc k)) mod GRID_HEIGHT\<rparr>
      in case scan_tail (tail sn) (tailLength sn) (Apple_x a) (Apple_y a) 0 False of
           Inl e \<Rightarrow> Some (Inl e)
         | Inr found \<Rightarrow> if found then respawn' rng sn (k + 2) else Some (Inr (a, k + 2))) = Some r"
  show "tailLength sn \<le> int (length (tail sn)) \<longrightarrow>
         (\<exists>n. r = Inr (sample rng (k + 2 * n), k + 2 * n + 2)
              \<and> cell (sample rng (k + 2 * n)) \<notin> set (checked sn)
              \<and> (\<forall>m<n. cell (sample rng (k + 2 * m)) \<in> set (checked sn)))"
  proof
    assume len: "tailLength sn \<le> int (length (tail sn))"
    have body: "(if cell (sample rng k) \<in> set (checked sn) then respawn' rng sn (k + 2)
            else Some (Inr (sample rng k, k + 2))) = Some r"
      using B by (auto simp add: scan_tail_set[OF len] sample_def cell_def checked_def Let_def split: if_splits)
    show "\<exists>n. r = Inr (sample rng (k + 2 * n), k + 2 * n + 2)
              \<and> cell (sample rng (k + 2 * n)) \<notin> set (checked sn)
              \<and> (\<forall>m<n. cell (sample rng (k + 2 * m)) \<in> set (checked sn))"
    proof (cases "cell (sample rng k) \<in> set (checked sn)")
      case False
      with body have "r = Inr (sample rng k, k + 2)" by simp
      with False show ?thesis by (intro exI[of _ 0]) simp
    next
      case True
      with body have "respawn' rng sn (k + 2) = Some r" by simp
      from IH[OF this] len obtain n where n:
        "r = Inr (sample rng (k + 2 + 2 * n), k + 2 + 2 * n + 2)"
        "cell (sample rng (k + 2 + 2 * n)) \<notin> set (checked sn)"
        "\<forall>m<n. cell (sample rng (k + 2 + 2 * m)) \<in> set (checked sn)"
        by blast
      have "\<forall>m<Suc n. cell (sample rng (k + 2 * m)) \<in> set (checked sn)"
      proof (intro allI impI)
        fix m assume "m < Suc n"
        show "cell (sample rng (k + 2 * m)) \<in> set (checked sn)"
        proof (cases m)
          case 0 then show ?thesis using True by simp
        next
          case (Suc m')
          then have "m' < n" using \<open>m < Suc n\<close> by simp
          with n(3) have "cell (sample rng (k + 2 + 2 * m')) \<in> set (checked sn)" by blast
          then show ?thesis using Suc by (simp add: add.commute add.left_commute)
        qed
      qed
      with n(1,2) show ?thesis
        by (intro exI[of _ "Suc n"]) (simp add: add.commute add.left_commute)
    qed
  qed
qed

lemma respawn_diverges:
  assumes "tailLength sn \<le> int (length (tail sn))"
    and "\<And>n. cell (sample rng (k + 2 * n)) \<in> set (checked sn)"
  shows "respawn rng sn k = None"
proof (cases "respawn rng sn k")
  case None then show ?thesis .
next
  case (Some r)
  from respawn_result[OF Some] assms show ?thesis by blast
qed

subsection \<open>One simulation step\<close>

lemma schedule_keeps:
  "snake (fst (schedule g dt)) = snake g" "apple (fst (schedule g dt)) = apple g"
  "state (fst (schedule g dt)) = state g" "scoreboard (fst (schedule g dt)) = scoreboard g"
  "randCalls (fst (schedule g dt)) = randCalls g"
  "movesPerSecond (fst (schedule g dt)) = movesPerSecond g"
  by (simp_all add: schedule_def Let_def)

lemma cell_eq_iff: "(cell a = t) = (Tail_x t = Apple_x a \<and> Tail_y t = Apple_y a)"
  by (auto simp: cell_def segment_def)

lemma segment_eta: "segment (Tail_x t) (Tail_y t) = t"
  by (simp add: segment_def)

lemma eat_or_shrink_shrink:
  assumes "tail (snake g) = h # rest" "cell (apple g) \<noteq> h"
  shows "eat_or_shrink rng g = Some (Inr (shrunk g))"
  using assms by (auto simp: eat_or_shrink_def cell_eq_iff shrunk_def)

lemma eat_or_shrink_eat:
  assumes "tail (snake g) = h # rest" "cell (apple g) = h"
  shows "eat_or_shrink rng g =
     (case respawn rng (snake g) (randCalls g) of
        None \<Rightarrow> None
      | Some r \<Rightarrow> (case r of Inl e \<Rightarrow> Some (Inl e) | Inr (a, k) \<Rightarrow> Some (Inr (grown g a k))))"
  using assms
  by (auto simp: eat_or_shrink_def cell_eq_iff Let_def grown_def split: option.splits sum.splits)

lemma move_unfold:
  assumes "tail (snake g) \<noteq> []"
  shows "move rng g =
     (case scan_tail (tail (snake g)) (tailLength (snake g))
             (Tail_x (next_head g)) (Tail_y (next_head g)) 0 False of
        Inl e \<Rightarrow> Some (Inl e)
      | Inr found \<Rightarrow> eat_or_shrink rng (with_head g found))"
  using assms
  by (cases "tail (snake g)") (auto simp: move_def next_head_def with_head_def Let_def split: sum.splits)

lemma move_consistent:
  assumes "tail (snake g) \<noteq> []" "tailLength (snake g) = int (length (tail (snake g)))"
  shows "move rng g = eat_or_shrink rng (with_head g (next_head g \<in> set (tail (snake g))))"
proof -
  have "scan_tail (tail (snake g)) (tailLength (snake g))
             (Tail_x (next_head g)) (Tail_y (next_head g)) 0 False
        = Inr (next_head g \<in> set (tail (snake g)))"
    using scan_tail_set[of "tailLength (snake g)" "tail (snake g)"] assms(2)
    by (simp add: segment_eta)
  then show ?thesis by (simp add: move_unfold[OF assms(1)])
qed

lemma with_head_fields:
  "tail (snake (with_head g found)) = next_head g # tail (snake g)"
  "tailLength (snake (with_head g found)) = tailLength (snake g)"
  "apple (with_head g found) = apple g"
  "state (with_head g found) = (if found then LOSE else state g)"
  "randCalls (with_head g found) = randCalls g"
  "scoreboard (with_head g found) = scoreboard g"
  "xVelocity (snake (with_head g found)) = xVelocity (snake g)"
  "yVelocity (snake (with_head g found)) = yVelocity (snake g)"
  by (simp_all add: with_head_def)

lemma grown_fields:
  "tail (snake (grown g a k)) = tail (snake g)"
  "tailLength (snake (grown g a k)) = tailLength (snake g) + 1"
  "apple (grown g a k) = a"
  "state (grown g a k) = state g"
  "randCalls (grown g a k) = k"
  "score (scoreboard (grown g a k)) = score (scoreboard g) + 1"
  by (simp_all add: grown_def)

lemma shrunk_fields:
  "tail (snake (shrunk g)) = butlast (tail (snake g))"
  "tailLength (snake (shrunk g)) = tailLength (snake g)"
  "apple (shrunk g) = apple g"
  "state (shrunk g) = state g"
  "randCalls (shrunk g) = randCalls g"
  "scoreboard (shrunk g) = scoreboard g"
  by (simp_all add: shrunk_def)

lemma move_returns:
  assumes "move rng g = Some (Inr g')"
  shows "tail (snake g) \<noteq> []
     \<and> (if cell (apple g) = next_head g
        then tail (snake g') = next_head g # tail (snake g)
           \<and> tailLength (snake g') = tailLength (snake g) + 1
           \<and> score (scoreboard g') = score (scoreboard g) + 1
        else tail (snake g') = next_head g # butlast (tail (snake g))
           \<and> tailLength (snake g') = tailLength (snake g)
           \<and> score (scoreboard g') = score (scoreboard g)
           \<and> apple g' = apple g)"
proof -
  have ne: "tail (snake g) \<noteq> []"
    using assms by (auto simp: move_def)
  from assms obtain found where
    e: "eat_or_shrink rng (with_head g found) = Some (Inr g')"
    by (auto simp: move_unfold[OF ne] split: sum.splits)
  show ?thesis
  proof (cases "cell (apple g) = next_head g")
    case True
    then have "cell (apple (with_head g found)) = next_head g" by (simp add: with_head_fields)
    from e eat_or_shrink_eat[OF with_head_fields(1) this, of rng]
    obtain a k where "g' = grown (with_head g found) a k"
      by (auto split: option.splits sum.splits)
    then show ?thesis using True ne by (simp add: with_head_fields grown_fields)
  next
    case False
    then have "cell (apple (with_head g found)) \<noteq> next_head g" by (simp add: with_head_fields)
    from e eat_or_shrink_shrink[OF with_head_fields(1) this, of rng]
    have "g' = shrunk (with_head g found)"
      by simp
    then show ?thesis using False ne by (simp add: with_head_fields shrunk_fields)
  qed
qed

subsection \<open>The frame update of a game that is being played\<close>

lemma render_playing_consistent:
  assumes "tailLength (snake g) = int (length (tail (snake g)))"
  shows "render_playing g = Inr (full_frame g)"
  using render_tail_general[of "tailLength (snake g)" "tail (snake g)" 0] assms
  by (simp add: render_playing_def full_frame_def)

lemma OnUpdatePlaying_due:
  assumes "snd (schedule g dt)"
  shows "OnUpdatePlaying rng g dt =
     (case move rng (fst (schedule g dt)) of
        None \<Rightarrow> None
      | Some (Inl e) \<Rightarrow> Some (Inl e)
      | Some (Inr g2) \<Rightarrow>
          (case render_playing g2 of
             Inl e \<Rightarrow> Some (Inl e)
           | Inr frame \<Rightarrow> Some (Inr (g2, frame))))"
  using assms by (simp add: OnUpdatePlaying_def split_beta)

lemma OnUpdatePlaying_idle:
  assumes "\<not> snd (schedule g dt)"
  shows "OnUpdatePlaying rng g dt =
     (case render_playing (fst (schedule g dt)) of
        Inl e \<Rightarrow> Some (Inl e)
      | Inr frame \<Rightarrow> Some (Inr (fst (schedule g dt), frame)))"
  using assms by (simp add: OnUpdatePlaying_def split_beta)

lemma next_head_schedule: "next_head (fst (schedule g dt)) = next_head g"
  by (simp add: next_head_def schedule_keeps)

lemma stepped_fields:
  "tail (snake (stepped g dt)) = next_head g # tail (snake g)"
  "tailLength (snake (stepped g dt)) = tailLength (snake g)"
  "apple (stepped g dt) = apple g"
  "state (stepped g dt) = (if next_head g \<in> set (tail (snake g)) then LOSE else state g)"
  "randCalls (stepped g dt) = randCalls g"
  "scoreboard (stepped g dt) = scoreboard g"
  by (simp_all add: stepped_def with_head_fields schedule_keeps next_head_schedule)

lemma update_idle:
  assumes "tailLength (snake g) = int (length (tail (snake g)))" "\<not> snd (schedule g dt)"
  shows "OnUpdatePlaying rng g dt = Some (Inr (fst (schedule g dt), full_frame (fst (schedule g dt))))"
  using assms
  by (simp add: OnUpdatePlaying_idle render_playing_consistent schedule_keeps)

lemma move_stepped:
  assumes "tailLength (snake g) = int (length (tail (snake g)))" "tail (snake g) \<noteq> []"
  shows "move rng (fst (schedule g dt)) = eat_or_shrink rng (stepped g dt)"
  using move_consistent[of "fst (schedule g dt)" rng] assms
  by (simp add: schedule_keeps next_head_schedule stepped_def)

lemma update_shrink:
  assumes "tailLength (snake g) = int (length (tail (snake g)))" "tail (snake g) \<noteq> []"
    "snd (schedule g dt)" "cell (apple g) \<noteq> next_head g"
  shows "OnUpdatePlaying rng g dt = Some (Inr (shrunk (stepped g dt), full_frame (shrunk (stepped g dt))))"
proof -
  have m: "move rng (fst (schedule g dt)) = Some (Inr (shrunk (stepped g dt)))"
    using eat_or_shrink_shrink[OF stepped_fields(1), of g dt rng] assms(4)
    by (simp add: move_stepped[OF assms(1,2)] stepped_fields)
  have "tailLength (snake (shrunk (stepped g dt))) = int (length (tail (snake (shrunk (stepped g dt)))))"
    using assms(1) by (simp add: shrunk_fields stepped_fields)
  from render_playing_consistent[OF this] m show ?thesis
    by (simp add: OnUpdatePlaying_due[OF assms(3)])
qed

lemma checked_stepped:
  assumes "tailLength (snake g) = int (length (tail (snake g)))" "tail (snake g) \<noteq> []"
  shows "checked (snake (stepped g dt)) = next_head g # butlast (tail (snake g))"
proof -
  obtain n where n: "length (tail (snake g)) = Suc n"
    using assms(2) by (cases "tail (snake g)") auto
  have "take (Suc n) (next_head g # tail (snake g)) = next_head g # take n (tail (snake g))"
    by simp
  moreover have "take n (tail (snake g)) = butlast (tail (snake g))"
    using n by (simp add: butlast_conv_take)
  moreover have "nat (tailLength (snake g)) = Suc n"
    using assms(1) n by simp
  ultimately show ?thesis
    by (simp add: checked_def stepped_fields)
qed

lemma update_eat:
  assumes "tailLength (snake g) = int (length (tail (snake g)))" "tail (snake g) \<noteq> []"
    "snd (schedule g dt)" "cell (apple g) = next_head g"
  shows "OnUpdatePlaying rng g dt =
     (case respawn rng (snake (stepped g dt)) (randCalls g) of
        None \<Rightarrow> None
      | Some r \<Rightarrow>
          (case r of
             Inl e \<Rightarrow> Some (Inl e)
           | Inr (a, k) \<Rightarrow> Some (Inr (grown (stepped g dt) a k, full_frame (grown (stepped g dt) a k)))))"
proof -
  have m: "move rng (fst (schedule g dt)) =
     (case respawn rng (snake (stepped g dt)) (randCalls g) of
        None \<Rightarrow> None
      | Some r \<Rightarrow> (case r of Inl e \<Rightarrow> Some (Inl e) | Inr (a, k) \<Rightarrow> Some (Inr (grown (stepped g dt) a k))))"
    using eat_or_shrink_eat[OF stepped_fields(1), of g dt rng] assms(4)
    by (simp add: move_stepped[OF assms(1,2)] stepped_fields)
  have r: "\<And>a k. render_playing (grown (stepped g dt) a k) = Inr (full_frame (grown (stepped g dt) a k))"
    using assms(1) by (intro render_playing_consistent) (simp add: grown_fields stepped_fields)
  show ?thesis
    by (simp add: OnUpdatePlaying_due[OF assms(3)] m r split: option.splits sum.splits)
qed

subsection \<open>The reachable games are consistent\<close>

lemma InitPlayingState_tail:
  "tail (snake (InitPlayingState rng g))
     = [segment 8 8, segment 7 8, segment 6 8, segment 5 8, segment 4 8, segment 3 8]"
  "tailLength (snake (InitPlayingState rng g)) = 6"
  "state (InitPlayingState rng g) = state g"
  "apple (InitPlayingState rng g) = sample rng (randCalls g)"
  "randCalls (InitPlayingState rng g) = randCalls g + 2"
  "xVelocity (snake (InitPlayingState rng g)) = 1"
  "yVelocity (snake (InitPlayingState rng g)) = 0"
  "secondAccumulator (InitPlayingState rng g) = secondAccumulator g"
  "movesPerformedThisSecond (InitPlayingState rng g) = movesPerformedThisSecond g"
  "movesPerSecond (InitPlayingState rng g) = movesPerSecond g"
  "scoreboard (InitPlayingState rng g) = \<lparr>score = 0, texture_score = 0\<rparr>"
proof -
  have "[0..<6] = [0, 1, 2, 3, 4, 5::nat]" by (simp add: upt_rec)
  then show "tail (snake (InitPlayingState rng g))
     = [segment 8 8, segment 7 8, segment 6 8, segment 5 8, segment 4 8, segment 3 8]"
    by (simp add: InitPlayingState_def Let_def)
qed (simp_all add: InitPlayingState_def Let_def sample_def)

lemma consistent_initial: "consistent initial"
  by (simp add: consistent_def initial_def)

lemma consistent_OnEvent:
  assumes "consistent g"
  shows "consistent (OnEvent rng g ks)"
proof (cases "state g")
  case MENU
  then show ?thesis using assms
    by (simp add: OnEvent_def OnEventMenu_def consistent_def InitPlayingState_tail)
next
  case PLAYING
  then show ?thesis using assms
    by (simp add: OnEvent_def OnEventPlaying_requested consistent_def set_velocity_def
        split: option.splits)
next
  case LOSE
  then show ?thesis using assms
    by (simp add: OnEvent_def OnEventMenu_def consistent_def InitPlayingState_tail)
next
  case PAUSE
  then show ?thesis using assms by (simp add: OnEvent_def)
qed

lemma consistent_playing_update:
  assumes c: "consistent g" and p: "state g = PLAYING"
    and u: "OnUpdatePlaying rng g dt = Some r"
  shows "\<exists>g'. r = Inr (g', full_frame g') \<and> consistent g'"
proof -
  from c p have len: "tailLength (snake g) = int (length (tail (snake g)))"
    and ne: "tail (snake g) \<noteq> []"
    by (simp_all add: consistent_def)
  show ?thesis
  proof (cases "snd (schedule g dt)")
    case False
    from u update_idle[OF len False, of rng] c show ?thesis
      by (auto simp: consistent_def schedule_keeps)
  next
    case due: True
    show ?thesis
    proof (cases "cell (apple g) = next_head g")
      case False
      from u update_shrink[OF len ne due False, of rng]
      have "r = Inr (shrunk (stepped g dt), full_frame (shrunk (stepped g dt)))" by simp
      moreover have "consistent (shrunk (stepped g dt))"
        using len ne by (simp add: consistent_def shrunk_fields stepped_fields)
      ultimately show ?thesis by blast
    next
      case True
      have len': "tailLength (snake (stepped g dt)) \<le> int (length (tail (snake (stepped g dt))))"
        using len by (simp add: stepped_fields)
      from u update_eat[OF len ne due True, of rng]
      obtain r' where r': "respawn rng (snake (stepped g dt)) (randCalls g) = Some r'"
        by (auto split: option.splits)
      from respawn_result[OF r'] len' obtain a k where ak: "r' = Inr (a, k)" by blast
      from u update_eat[OF len ne due True, of rng] r' ak
      have "r = Inr (grown (stepped g dt) a k, full_frame (grown (stepped g dt) a k))" by simp
      moreover have "consistent (grown (stepped g dt) a k)"
        using len by (simp add: consistent_def grown_fields stepped_fields)
      ultimately show ?thesis by blast
    qed
  qed
qed

lemma consistent_OnUpdate:
  assumes "consistent g" "OnUpdate rng g dt = Some r"
  shows "\<exists>g' frame. r = Inr (g', frame) \<and> consistent g'"
proof (cases "state g")
  case PLAYING
  with assms consistent_playing_update[OF assms(1) PLAYING, of rng dt r] show ?thesis
    by (auto simp: OnUpdate_def)
qed (use assms in \<open>auto simp: OnUpdate_def OnUpdateMenu_def OnUpdateLose_def\<close>)

lemma reachable_consistent: "reachable rng g \<Longrightarrow> consistent g"
proof (induction rule: reachable.induct)
  case start
  show ?case by (rule consistent_initial)
next
  case (event g ks)
  then show ?case by (simp add: consistent_OnEvent)
next
  case (update g deltaTime g' frame)
  from consistent_OnUpdate[OF update.IH update.hyps(2)] show ?case by auto
qed

lemma consistent_playing:
  assumes "reachable rng g" "state g = PLAYING"
  shows "tailLength (snake g) = int (length (tail (snake g)))" "tail (snake g) \<noteq> []"
  using reachable_consistent[OF assms(1)] assms(2) by (simp_all add: consistent_def)

subsection \<open>A step that eats\<close>

text \<open>On an eating step of a reachable game the update returns exactly when the respawn
  search does: when the random stream eventually yields a cell that is neither the new
  head nor a segment of the old body other than its last.\<close>

lemma eating_update:
  assumes "reachable rng g" "state g = PLAYING" "snd (schedule g dt)"
    "cell (apple g) = next_head g"
  shows "(OnUpdatePlaying rng g dt = None)
           = (\<forall>n. cell (sample rng (randCalls g + 2 * n)) \<in> set (next_head g # butlast (tail (snake g))))"
    "cell (sample rng (randCalls g + 2 * n)) \<notin> set (next_head g # butlast (tail (snake g))) \<Longrightarrow>
     (\<And>m. m < n \<Longrightarrow>
        cell (sample rng (randCalls g + 2 * m)) \<in> set (next_head g # butlast (tail (snake g)))) \<Longrightarrow>
     OnUpdatePlaying rng g dt
       = Some (Inr (grown (stepped g dt) (sample rng (randCalls g + 2 * n)) (randCalls g + 2 * n + 2),
                    full_frame (grown (stepped g dt) (sample rng (randCalls g + 2 * n))
                                  (randCalls g + 2 * n + 2))))"
    "OnUpdatePlaying rng g dt = Some r \<Longrightarrow>
     \<exists>a k. r = Inr (grown (stepped g dt) a k, full_frame (grown (stepped g dt) a k))"
proof -
  note c = consistent_playing[OF assms(1,2)]
  let ?sn = "snake (stepped g dt)" and ?k = "randCalls g"
  let ?occ = "next_head g # butlast (tail (snake g))"
  have ch: "checked ?sn = ?occ" by (rule checked_stepped[OF c])
  have len': "tailLength ?sn \<le> int (length (tail ?sn))"
    using c(1) by (simp add: stepped_fields)
  have up: "OnUpdatePlaying rng g dt =
     (case respawn rng ?sn ?k of
        None \<Rightarrow> None
      | Some r \<Rightarrow>
          (case r of
             Inl e \<Rightarrow> Some (Inl e)
           | Inr (a, k) \<Rightarrow> Some (Inr (grown (stepped g dt) a k, full_frame (grown (stepped g dt) a k)))))"
    by (rule update_eat[OF c assms(3,4)])
  have first: "\<And>n. cell (sample rng (?k + 2 * n)) \<notin> set ?occ \<Longrightarrow>
        (\<And>m. m < n \<Longrightarrow> cell (sample rng (?k + 2 * m)) \<in> set ?occ) \<Longrightarrow>
        respawn rng ?sn ?k = Some (Inr (sample rng (?k + 2 * n), ?k + 2 * n + 2))"
    using respawn_first_free[OF len', of rng ?k] by (simp add: ch)
  have iff: "(respawn rng ?sn ?k \<noteq> None) = (\<exists>n. cell (sample rng (?k + 2 * n)) \<notin> set ?occ)"
  proof
    assume "respawn rng ?sn ?k \<noteq> None"
    then obtain r where "respawn rng ?sn ?k = Some r" by blast
    from respawn_result[OF this] len' show "\<exists>n. cell (sample rng (?k + 2 * n)) \<notin> set ?occ"
      by (auto simp: ch)
  next
    assume ex: "\<exists>n. cell (sample rng (?k + 2 * n)) \<notin> set ?occ"
    define n0 where "n0 = (LEAST n. cell (sample rng (?k + 2 * n)) \<notin> set ?occ)"
    have "cell (sample rng (?k + 2 * n0)) \<notin> set ?occ"
      unfolding n0_def using ex by (rule LeastI_ex)
    moreover have "\<And>m. m < n0 \<Longrightarrow> cell (sample rng (?k + 2 * m)) \<in> set ?occ"
      unfolding n0_def using not_less_Least by blast
    ultimately show "respawn rng ?sn ?k \<noteq> None"
      using first[of n0] by simp
  qed
  show "(OnUpdatePlaying rng g dt = None) = (\<forall>n. cell (sample rng (?k + 2 * n)) \<in> set ?occ)"
  proof -
    have "(OnUpdatePlaying rng g dt = None) = (respawn rng ?sn ?k = None)"
      by (simp add: up split: option.splits sum.splits)
    moreover have "(respawn rng ?sn ?k = None)
        = (\<forall>n. cell (sample rng (?k + 2 * n)) \<in> set ?occ)"
      using iff by (metis (no_types, lifting))
    ultimately show ?thesis by (rule trans)
  qed
  show "OnUpdatePlaying rng g dt
       = Some (Inr (grown (stepped g dt) (sample rng (?k + 2 * n)) (?k + 2 * n + 2),
                    full_frame (grown (stepped g dt) (sample rng (?k + 2 * n)) (?k + 2 * n + 2))))"
    if "cell (sample rng (?k + 2 * n)) \<notin> set ?occ"
      "\<And>m. m < n \<Longrightarrow> cell (sample rng (?k + 2 * m)) \<in> set ?occ"
    using first[OF that] by (simp add: up)
  show "\<exists>a k. r = Inr (grown (stepped g dt) a k, full_frame (grown (stepped g dt) a k))"
    if r: "OnUpdatePlaying rng g dt = Some r"
  proof -
    from r obtain r' where r': "respawn rng ?sn ?k = Some r'"
      by (auto simp: up split: option.splits)
    from respawn_result[OF r'] len' obtain a k where "r' = Inr (a, k)" by blast
    with r r' show ?thesis by (auto simp: up)
  qed
qed

subsection \<open>Concrete games\<close>

lemma started_eq:
  "OnEvent rng initial (held [SDL_SCANCODE_SPACE])
     = (playing_game PLAYING 0 0 (1, 0) [(8, 8), (7, 8), (6, 8), (5, 8), (4, 8), (3, 8)]
          (int (rng 0) mod 20, int (rng 1) mod 15))"
  by (simp add: OnEvent_def OnEventMenu_def held_def initial_def playing_game_def
      InitPlayingState_def Let_def GRID_WIDTH_eq GRID_HEIGHT_eq upt_rec)

lemma moving_right_eq:
  "moving_right = playing_game PLAYING 0 0 (1, 0) [(8, 8), (7, 8), (6, 8), (5, 8), (4, 8), (3, 8)] (0, 0)"
  by (simp add: moving_right_def started_eq zeros_def)

lemma apple_ahead_eq:
  "apple_ahead = playing_game PLAYING 0 0 (1, 0) [(8, 8), (7, 8), (6, 8), (5, 8), (4, 8), (3, 8)] (9, 8)"
  by (simp add: apple_ahead_def started_eq apple_ahead_stream_def)

lemma playing_game_fields:
  "state (playing_game st n acc v segs a) = st"
  "movesPerSecond (playing_game st n acc v segs a) = 10"
  "movesPerformedThisSecond (playing_game st n acc v segs a) = n"
  "secondAccumulator (playing_game st n acc v segs a) = acc"
  "xVelocity (snake (playing_game st n acc v segs a)) = fst v"
  "yVelocity (snake (playing_game st n acc v segs a)) = snd v"
  "tail (snake (playing_game st n acc v segs a)) = map (\<lambda>(x, y). segment x y) segs"
  "tailLength (snake (playing_game st n acc v segs a)) = int (length segs)"
  "apple (playing_game st n acc v segs a) = \<lparr>Apple_x = fst a, Apple_y = snd a\<rparr>"
  "randCalls (playing_game st n acc v segs a) = 2"
  "scoreboard (playing_game st n acc v segs a) = \<lparr>score = 0, texture_score = 0\<rparr>"
  by (simp_all add: playing_game_def)

lemma playing_game_turn:
  "set_velocity (playing_game st n acc v segs a) vx vy = playing_game st n acc (vx, vy) segs a"
  by (simp add: playing_game_def set_velocity_def)

lemmas run_defs = shrunk_def stepped_def with_head_def schedule_whole Let_def playing_game_def
  next_head_def new_head_def wrap_def segment_def GRID_WIDTH_eq GRID_HEIGHT_eq


lemma reachable_playing_step:
  assumes "reachable rng g" "state g = PLAYING" "snd (schedule g dt)" "cell (apple g) \<noteq> next_head g"
  shows "reachable rng (shrunk (stepped g dt))"
proof -
  from reachable_consistent[OF assms(1)] assms(2)
  have len: "tailLength (snake g) = int (length (tail (snake g)))" and ne: "tail (snake g) \<noteq> []"
    by (simp_all add: consistent_def)
  have "OnUpdate rng g dt = Some (Inr (shrunk (stepped g dt), full_frame (shrunk (stepped g dt))))"
    using update_shrink[OF len ne assms(3,4), of rng] assms(2) by (simp add: OnUpdate_def)
  from reachable.update[OF assms(1) this] show ?thesis .
qed

lemma reachable_moving_right: "reachable zeros moving_right"
  unfolding moving_right_def by (rule reachable.event[OF reachable.start])

lemma reachable_apple_ahead: "reachable apple_ahead_stream apple_ahead"
  unfolding apple_ahead_def by (rule reachable.event[OF reachable.start])

subsection \<open>Concrete runs\<close>

lemma moving_right_run:
  "snd (schedule moving_right 16)" "cell (apple moving_right) \<noteq> next_head moving_right"
  "shrunk (stepped moving_right 16) = moved_right"
  by (simp_all add: moving_right_eq moved_right_def cell_def run_defs)

lemma moving_right_update:
  "OnUpdatePlaying zeros moving_right 16 = Some (Inr (moved_right, full_frame moved_right))"
proof -
  from reachable_consistent[OF reachable_moving_right]
  have len: "tailLength (snake moving_right) = int (length (tail (snake moving_right)))"
    and ne: "tail (snake moving_right) \<noteq> []"
    by (simp_all add: consistent_def moving_right_fields)
  from update_shrink[OF len ne moving_right_run(1,2), of zeros] show ?thesis
    by (simp add: moving_right_run(3))
qed

lemma apple_ahead_run:
  "snd (schedule apple_ahead 16)" "cell (apple apple_ahead) = next_head apple_ahead"
  "state apple_ahead = PLAYING" "randCalls apple_ahead = 2"
  "next_head apple_ahead # butlast (tail (snake apple_ahead))
     = [segment 9 8, segment 8 8, segment 7 8, segment 6 8, segment 5 8, segment 4 8]"
  "sample apple_ahead_stream 2 = \<lparr>Apple_x = 3, Apple_y = 8\<rparr>"
  "grown (stepped apple_ahead 16) \<lparr>Apple_x = 3, Apple_y = 8\<rparr> 4 = fed"
  by (simp_all add: apple_ahead_eq fed_def cell_def run_defs sample_def apple_ahead_stream_def
      grown_def)

lemma apple_ahead_update:
  "OnUpdatePlaying apple_ahead_stream apple_ahead 16 = Some (Inr (fed, full_frame fed))"
proof -
  from reachable_consistent[OF reachable_apple_ahead]
  have len: "tailLength (snake apple_ahead) = int (length (tail (snake apple_ahead)))"
    and ne: "tail (snake apple_ahead) \<noteq> []"
    by (simp_all add: consistent_def apple_ahead_run)
  have len': "tailLength (snake (stepped apple_ahead 16))
                \<le> int (length (tail (snake (stepped apple_ahead 16))))"
    using len by (simp add: stepped_fields)
  have free: "cell (sample apple_ahead_stream (2 + 2 * 0))
                \<notin> set (checked (snake (stepped apple_ahead 16)))"
    by (simp add: checked_stepped[OF len ne] apple_ahead_run cell_def segment_def)
  have "respawn apple_ahead_stream (snake (stepped apple_ahead 16)) 2
          = Some (Inr (\<lparr>Apple_x = 3, Apple_y = 8\<rparr>, 4))"
    using respawn_first_free[OF len' free] by (simp add: apple_ahead_run)
  with update_eat[OF len ne apple_ahead_run(1,2), of apple_ahead_stream] show ?thesis
    by (simp add: apple_ahead_run)
qed

lemma reachable_coil:
  assumes a: "(int (rng 0) mod 20, int (rng 1) mod 15) = (ax, ay)"
    and free: "(ax, ay) \<noteq> (8, 7)" "(ax, ay) \<noteq> (7, 7)"
  shows "reachable rng
           (playing_game PLAYING 2 116 (0, 1) [(7, 7), (8, 7), (8, 8), (7, 8), (6, 8), (5, 8)] (ax, ay))"
proof -
  let ?body = "[(8, 8), (7, 8), (6, 8), (5, 8), (4, 8), (3, 8)] :: (int \<times> int) list"
  let ?t0 = "playing_game PLAYING 0 0 (1, 0) ?body (ax, ay)"
  let ?t1 = "playing_game PLAYING 0 0 (0, - 1) ?body (ax, ay)"
  let ?t2 = "playing_game PLAYING 1 16 (0, - 1) [(8, 7), (8, 8), (7, 8), (6, 8), (5, 8), (4, 8)] (ax, ay)"
  let ?t3 = "playing_game PLAYING 1 16 (- 1, 0) [(8, 7), (8, 8), (7, 8), (6, 8), (5, 8), (4, 8)] (ax, ay)"
  let ?t4 = "playing_game PLAYING 2 116 (- 1, 0) [(7, 7), (8, 7), (8, 8), (7, 8), (6, 8), (5, 8)] (ax, ay)"
  let ?t5 = "playing_game PLAYING 2 116 (0, 1) [(7, 7), (8, 7), (8, 8), (7, 8), (6, 8), (5, 8)] (ax, ay)"
  have e0: "OnEvent rng initial (held [SDL_SCANCODE_SPACE]) = ?t0"
    using a by (simp add: started_eq)
  have r0: "reachable rng ?t0"
    using reachable.event[OF reachable.start, of rng "held [SDL_SCANCODE_SPACE]"] by (simp only: e0)
  have e1: "OnEvent rng ?t0 (held [SDL_SCANCODE_W]) = ?t1"
    by (simp add: OnEvent_def playing_game_fields OnEventPlaying_def held_def playing_game_turn)
  have r1: "reachable rng ?t1"
    using reachable.event[OF r0, of "held [SDL_SCANCODE_W]"] by (simp only: e1)
  have u1: "snd (schedule ?t1 16)" "cell (apple ?t1) \<noteq> next_head ?t1"
    "shrunk (stepped ?t1 16) = ?t2"
    using free(1) by (simp_all add: cell_def run_defs)
  have r2: "reachable rng ?t2"
    using reachable_playing_step[OF r1 _ u1(1,2)] by (simp add: u1(3) playing_game_fields)
  have e2: "OnEvent rng ?t2 (held [SDL_SCANCODE_A]) = ?t3"
    by (simp add: OnEvent_def playing_game_fields OnEventPlaying_def held_def playing_game_turn)
  have r3: "reachable rng ?t3"
    using reachable.event[OF r2, of "held [SDL_SCANCODE_A]"] by (simp only: e2)
  have u2: "snd (schedule ?t3 100)" "cell (apple ?t3) \<noteq> next_head ?t3"
    "shrunk (stepped ?t3 100) = ?t4"
    using free(2) by (simp_all add: cell_def run_defs)
  have r4: "reachable rng ?t4"
    using reachable_playing_step[OF r3 _ u2(1,2)] by (simp add: u2(3) playing_game_fields)
  have e3: "OnEvent rng ?t4 (held [SDL_SCANCODE_S]) = ?t5"
    by (simp add: OnEvent_def playing_game_fields OnEventPlaying_def held_def playing_game_turn)
  show ?thesis
    using reachable.event[OF r4, of "held [SDL_SCANCODE_S]"] by (simp only: e3)
qed

lemma reachable_coiled: "reachable zeros coiled"
  unfolding coiled_def by (rule reachable_coil) (simp_all add: zeros_def)

lemma reachable_snared: "reachable snared_stream snared" "reachable escape_stream snared"
  unfolding snared_def
  by (rule reachable_coil, simp_all add: snared_stream_def escape_stream_def)+

lemma coiled_run:
  "state coiled = PLAYING" "snd (schedule coiled 100)" "cell (apple coiled) \<noteq> next_head coiled"
  "next_head coiled \<in> set (tail (snake coiled))" "next_head coiled = segment 7 8"
  "shrunk (stepped coiled 100) = crashed"
  by (simp_all add: coiled_def crashed_def cell_def run_defs)

subsection \<open>Growth and shrinking of the tail\<close>

lemma stuck_eq: "stuck = apple_ahead"
  by (simp add: stuck_def apple_ahead_eq started_eq stuck_stream_def)

lemma reachable_stuck: "reachable stuck_stream stuck"
  unfolding stuck_def by (rule reachable.event[OF reachable.start])

lemma stuck_samples: "cell (sample stuck_stream (2 + 2 * n)) = segment 9 8"
  by (simp add: sample_def stuck_stream_def cell_def GRID_WIDTH_eq GRID_HEIGHT_eq)

text \<open>
  Claim C7 fails on the code in its first half: on a due step whose new head is at the
  apple's position the recorded tail length is incremented only after the respawn search,
  and the search need not return. Run: the game is started with the apple at \<open>(9, 8)\<close>, the
  first step eats it, and \<^verbatim>\<open>rand()\<close> goes on yielding \<open>9, 8\<close>, the cell of the new head: the
  update never returns, and no game with a tail length increased by one comes out of it.
\<close>

theorem growth_counterexample:
  "reachable stuck_stream stuck
   \<and> state stuck = PLAYING
   \<and> snd (schedule stuck 16)
   \<and> cell (apple stuck) = next_head stuck
   \<and> OnUpdatePlaying stuck_stream stuck 16 = None
   \<and> \<not> (\<exists>g' frame. OnUpdatePlaying stuck_stream stuck 16 = Some (Inr (g', frame))
                     \<and> tailLength (snake g') = tailLength (snake stuck) + 1)"
proof -
  note r = apple_ahead_run[folded stuck_eq]
  have occ: "\<forall>n. cell (sample stuck_stream (randCalls stuck + 2 * n))
                  \<in> set (next_head stuck # butlast (tail (snake stuck)))"
    by (simp only: r(4,5) stuck_samples) simp
  have d: "OnUpdatePlaying stuck_stream stuck 16 = None"
    using eating_update(1)[OF reachable_stuck r(3) r(1) r(2)] occ by blast
  then have "\<not> (\<exists>g' frame. OnUpdatePlaying stuck_stream stuck 16 = Some (Inr (g', frame))
                     \<and> tailLength (snake g') = tailLength (snake stuck) + 1)"
    by simp
  with d reachable_stuck r(1,2,3) show ?thesis by blast
qed

text \<open>
  Claim C7, amended. On a due step that returns: if the new head is at the apple's
  position, the recorded tail length increases by exactly one and no segment is removed
  (the vector is the old one with the new head in front); otherwise exactly the last
  segment is removed, and the segment count and the recorded tail length are what they
  were. A due step on which nothing is eaten always returns, when the recorded length is
  the length of the nonempty vector. A due step of a reachable game that is being played
  and on which the apple is eaten returns exactly when the random stream, from its current
  position, eventually yields a cell that is neither the new head nor a segment of the old
  body other than its last; it then returns the grown game and its frame, and otherwise it
  never returns.
\<close>

theorem tail_growth_and_shrink:
  "(OnUpdatePlaying rng g dt = Some (Inr (g', frame)) \<and> snd (schedule g dt) \<longrightarrow>
      tail (snake g) \<noteq> []
      \<and> (if cell (apple g) = next_head g
         then tailLength (snake g') = tailLength (snake g) + 1
            \<and> tail (snake g') = next_head g # tail (snake g)
            \<and> length (tail (snake g')) = length (tail (snake g)) + 1
         else tail (snake g') = next_head g # butlast (tail (snake g))
            \<and> length (tail (snake g')) = length (tail (snake g))
            \<and> tailLength (snake g') = tailLength (snake g)))
   \<and> (tailLength (snake g) = int (length (tail (snake g))) \<and> tail (snake g) \<noteq> []
        \<and> snd (schedule g dt) \<and> cell (apple g) \<noteq> next_head g \<longrightarrow>
      (\<exists>g' frame. OnUpdatePlaying rng g dt = Some (Inr (g', frame))))
   \<and> (reachable rng g \<and> state g = PLAYING \<and> snd (schedule g dt)
        \<and> cell (apple g) = next_head g \<longrightarrow>
      (OnUpdatePlaying rng g dt = None)
         = (\<forall>n. cell (sample rng (randCalls g + 2 * n))
                   \<in> set (next_head g # butlast (tail (snake g))))
      \<and> (\<forall>r. OnUpdatePlaying rng g dt = Some r \<longrightarrow>
            (\<exists>a k. r = Inr (grown (stepped g dt) a k, full_frame (grown (stepped g dt) a k))
                  \<and> tailLength (snake (grown (stepped g dt) a k)) = tailLength (snake g) + 1
                  \<and> tail (snake (grown (stepped g dt) a k)) = next_head g # tail (snake g))))"
proof (intro conjI impI allI)
  assume a: "OnUpdatePlaying rng g dt = Some (Inr (g', frame)) \<and> snd (schedule g dt)"
  then have m: "move rng (fst (schedule g dt)) = Some (Inr g')"
    by (auto simp: OnUpdatePlaying_due split: option.splits sum.splits)
  from move_returns[OF m] show "tail (snake g) \<noteq> []"
    by (simp add: schedule_keeps)
  then have l: "length (butlast (tail (snake g))) + 1 = length (tail (snake g))"
    by (cases "tail (snake g)") simp_all
  from move_returns[OF m] l
  show "if cell (apple g) = next_head g
         then tailLength (snake g') = tailLength (snake g) + 1
            \<and> tail (snake g') = next_head g # tail (snake g)
            \<and> length (tail (snake g')) = length (tail (snake g)) + 1
         else tail (snake g') = next_head g # butlast (tail (snake g))
            \<and> length (tail (snake g')) = length (tail (snake g))
            \<and> tailLength (snake g') = tailLength (snake g)"
    by (simp add: schedule_keeps next_head_schedule split: if_splits)
next
  assume "tailLength (snake g) = int (length (tail (snake g))) \<and> tail (snake g) \<noteq> []
        \<and> snd (schedule g dt) \<and> cell (apple g) \<noteq> next_head g"
  then show "\<exists>g' frame. OnUpdatePlaying rng g dt = Some (Inr (g', frame))"
    using update_shrink[of g dt rng] by blast
next
  assume h: "reachable rng g \<and> state g = PLAYING \<and> snd (schedule g dt)
        \<and> cell (apple g) = next_head g"
  then show "(OnUpdatePlaying rng g dt = None)
         = (\<forall>n. cell (sample rng (randCalls g + 2 * n))
                   \<in> set (next_head g # butlast (tail (snake g))))"
    using eating_update(1)[of rng g dt] by blast
next
  fix r
  assume h: "reachable rng g \<and> state g = PLAYING \<and> snd (schedule g dt)
        \<and> cell (apple g) = next_head g"
    and r: "OnUpdatePlaying rng g dt = Some r"
  from h have h': "reachable rng g" "state g = PLAYING" "snd (schedule g dt)"
    "cell (apple g) = next_head g" by simp_all
  from eating_update(3)[OF h' r] obtain a k where
    "r = Inr (grown (stepped g dt) a k, full_frame (grown (stepped g dt) a k))" by blast
  then show "\<exists>a k. r = Inr (grown (stepped g dt) a k, full_frame (grown (stepped g dt) a k))
                  \<and> tailLength (snake (grown (stepped g dt) a k)) = tailLength (snake g) + 1
                  \<and> tail (snake (grown (stepped g dt) a k)) = next_head g # tail (snake g)"
    by (auto simp: grown_fields stepped_fields)
qed

theorem tail_growth_and_shrink_witness:
  "OnUpdatePlaying zeros moving_right 16 = Some (Inr (moved_right, full_frame moved_right))
   \<and> snd (schedule moving_right 16)
   \<and> cell (apple moving_right) \<noteq> next_head moving_right
   \<and> tail (snake moved_right) = next_head moving_right # butlast (tail (snake moving_right))
   \<and> length (tail (snake moved_right)) = length (tail (snake moving_right))
   \<and> tailLength (snake moved_right) = tailLength (snake moving_right)
   \<and> reachable apple_ahead_stream apple_ahead \<and> state apple_ahead = PLAYING
   \<and> OnUpdatePlaying apple_ahead_stream apple_ahead 16 = Some (Inr (fed, full_frame fed))
   \<and> snd (schedule apple_ahead 16)
   \<and> cell (apple apple_ahead) = next_head apple_ahead
   \<and> cell (sample apple_ahead_stream (randCalls apple_ahead + 2 * 0))
        \<notin> set (next_head apple_ahead # butlast (tail (snake apple_ahead)))
   \<and> OnUpdatePlaying apple_ahead_stream apple_ahead 16 \<noteq> None
   \<and> tailLength (snake fed) = tailLength (snake apple_ahead) + 1
   \<and> tail (snake fed) = next_head apple_ahead # tail (snake apple_ahead)
   \<and> length (tail (snake fed)) = length (tail (snake apple_ahead)) + 1"
proof -
  note a = moving_right_update moving_right_run(1,2)
  note b = apple_ahead_update apple_ahead_run(1,2)
  have "tail (snake moved_right) = next_head moving_right # butlast (tail (snake moving_right))
   \<and> length (tail (snake moved_right)) = length (tail (snake moving_right))
   \<and> tailLength (snake moved_right) = tailLength (snake moving_right)"
    using tail_growth_and_shrink[of zeros moving_right 16 moved_right "full_frame moved_right",
        THEN conjunct1] a
    by simp
  moreover have "tailLength (snake fed) = tailLength (snake apple_ahead) + 1
   \<and> tail (snake fed) = next_head apple_ahead # tail (snake apple_ahead)
   \<and> length (tail (snake fed)) = length (tail (snake apple_ahead)) + 1"
    using tail_growth_and_shrink[of apple_ahead_stream apple_ahead 16 fed "full_frame fed",
        THEN conjunct1] b
    by simp
  moreover have free: "cell (sample apple_ahead_stream (randCalls apple_ahead + 2 * 0))
        \<notin> set (next_head apple_ahead # butlast (tail (snake apple_ahead)))"
    by (simp add: apple_ahead_run cell_def segment_def)
  moreover have "OnUpdatePlaying apple_ahead_stream apple_ahead 16 \<noteq> None"
    using tail_growth_and_shrink[of apple_ahead_stream apple_ahead 16 fed "full_frame fed",
        THEN conjunct2, THEN conjunct2]
      reachable_apple_ahead apple_ahead_run(1,2,3) free
    by blast
  ultimately show ?thesis using a b reachable_apple_ahead apple_ahead_run(3) by blast
qed

subsection \<open>Bounds of the segment accesses\<close>

text \<open>
  Claim C10. In every reachable game the length of the segment vector equals the recorded
  \<^verbatim>\<open>tailLength\<close>: \<^verbatim>\<open>InitPlayingState\<close> establishes it, every event handler and every update
  that returns preserves it, and a game that is being played has at least one segment; on
  a step the vector holds \<^verbatim>\<open>tailLength + 1\<close> segments once the head is inserted. Hence no
  indexed access of an update is out of bounds: an update never ends in \<open>OutOfBounds\<close>.
\<close>

theorem segment_accesses_in_bounds:
  assumes "reachable rng g"
  shows "tailLength (snake g) = int (length (tail (snake g)))
       \<and> consistent (InitPlayingState rng g0)
       \<and> consistent (OnEvent rng g ks)
       \<and> (OnUpdate rng g dt = Some r \<longrightarrow> (\<exists>g' frame. r = Inr (g', frame) \<and> consistent g'))
       \<and> (state g = PLAYING \<longrightarrow>
            tail (snake g) \<noteq> []
            \<and> int (length (tail (snake (stepped g dt)))) = tailLength (snake (stepped g dt)) + 1)
       \<and> OnUpdate rng g dt \<noteq> Some (Inl OutOfBounds)"
proof -
  note c = reachable_consistent[OF assms]
  have 1: "tailLength (snake g) = int (length (tail (snake g)))"
    using c by (simp add: consistent_def)
  have 2: "consistent (InitPlayingState rng g0)"
    by (simp add: consistent_def InitPlayingState_tail)
  have 3: "consistent (OnEvent rng g ks)"
    by (rule consistent_OnEvent[OF c])
  have 4: "OnUpdate rng g dt = Some r \<longrightarrow> (\<exists>g' frame. r = Inr (g', frame) \<and> consistent g')"
    using consistent_OnUpdate[OF c] by blast
  have 5: "state g = PLAYING \<longrightarrow>
            tail (snake g) \<noteq> []
            \<and> int (length (tail (snake (stepped g dt)))) = tailLength (snake (stepped g dt)) + 1"
    using c by (simp add: consistent_def stepped_fields)
  have 6: "OnUpdate rng g dt \<noteq> Some (Inl OutOfBounds)"
    using consistent_OnUpdate[OF c, of rng dt "Inl OutOfBounds"] by auto
  from 1 2 3 4 5 6 show ?thesis by blast
qed

theorem segment_accesses_in_bounds_witness:
  "reachable zeros moving_right
   \<and> state moving_right = PLAYING
   \<and> tailLength (snake moving_right) = int (length (tail (snake moving_right)))
   \<and> tail (snake moving_right) \<noteq> []
   \<and> OnUpdate zeros moving_right 16 = Some (Inr (moved_right, full_frame moved_right))
   \<and> consistent moved_right
   \<and> OnUpdate zeros moving_right 16 \<noteq> Some (Inl OutOfBounds)"
proof -
  note t = segment_accesses_in_bounds[OF reachable_moving_right, of initial "held []" 16
      "Inr (moved_right, full_frame moved_right)"]
  have u: "OnUpdate zeros moving_right 16 = Some (Inr (moved_right, full_frame moved_right))"
    using moving_right_update by (simp add: OnUpdate_def moving_right_fields)
  from t u have "consistent moved_right" by simp
  with t u reachable_moving_right show ?thesis
    by (simp add: moving_right_fields)
qed

subsection \<open>Losing\<close>

lemma snared_run:
  "state snared = PLAYING" "snd (schedule snared 100)" "cell (apple snared) = next_head snared"
  "next_head snared \<in> set (tail (snake snared))" "next_head snared = segment 7 8"
  "randCalls snared = 2"
  "next_head snared # butlast (tail (snake snared))
     = [segment 7 8, segment 7 7, segment 8 7, segment 8 8, segment 7 8, segment 6 8]"
  "grown (stepped snared 100) \<lparr>Apple_x = 0, Apple_y = 0\<rparr> 6 = caught"
  by (simp_all add: snared_def caught_def cell_def run_defs grown_def)

lemma snared_samples:
  "cell (sample snared_stream (2 + 2 * n)) = segment 7 8"
  "cell (sample escape_stream (2 + 2 * 0)) = segment 7 8"
  "sample escape_stream 4 = \<lparr>Apple_x = 0, Apple_y = 0\<rparr>"
  by (simp_all add: sample_def snared_stream_def escape_stream_def cell_def GRID_WIDTH_eq
      GRID_HEIGHT_eq)

text \<open>
  Claim C2 fails on the code in its last part: after the collision loop has set the state
  to LOSE, a step whose new head is also at the apple's position runs the respawn search,
  which need not return; then no head is seen inserted and no frame is rendered. Run: a
  game is started under the random stream \<open>7, 8, 7, 8, \<dots>\<close>, so that the apple is at
  \<open>(7, 8)\<close>, under the second segment of the snake; the snake turns up, left and down, and
  its third step runs into its own body at \<open>(7, 8)\<close>, where the apple is; every cell that
  the search samples is \<open>(7, 8)\<close>, the cell of the new head: the update never returns.
\<close>

theorem lose_counterexample:
  "reachable snared_stream snared
   \<and> state snared = PLAYING
   \<and> snd (schedule snared 100)
   \<and> next_head snared \<in> set (tail (snake snared))
   \<and> cell (apple snared) = next_head snared
   \<and> OnUpdate snared_stream snared 100 = None"
proof -
  note r = snared_run
  have occ: "\<forall>n. cell (sample snared_stream (randCalls snared + 2 * n))
                  \<in> set (next_head snared # butlast (tail (snake snared)))"
    by (simp only: r(6,7) snared_samples) simp
  have "OnUpdatePlaying snared_stream snared 100 = None"
    using eating_update(1)[OF reachable_snared(1) r(1,2,3)] occ by blast
  then have "OnUpdate snared_stream snared 100 = None"
    by (simp add: OnUpdate_def r(1))
  with reachable_snared(1) r(1,2,3,4) show ?thesis by blast
qed

text \<open>
  Claim C2, amended. For every reachable game that is being played: no event leads to
  LOSE; an update that returns leads to LOSE exactly when a step is due this frame and the
  wrapped new head is at the position of a segment of the body as it is before the
  insertion (all \<^verbatim>\<open>tailLength\<close> segments of the vector); on that step the new head is
  inserted at the front and the frame is rendered, showing it. Such a step always returns
  when it does not eat. When it eats, it returns exactly when the random stream, from its
  current position, eventually yields a cell that is neither the new head nor a segment of
  the old body other than its last, and what it returns is a lost game with the new head
  in front and its frame; otherwise it never returns, and there is neither a lost game
  nor a frame.
\<close>

theorem lose_exactly_on_collision:
  assumes "reachable rng g" "state g = PLAYING"
  shows "state (OnEvent rng g ks) \<noteq> LOSE
       \<and> checked (snake g) = tail (snake g)
       \<and> (OnUpdate rng g dt = Some (Inr (g', frame)) \<longrightarrow>
            (state g' = LOSE) = (snd (schedule g dt) \<and> next_head g \<in> set (tail (snake g)))
            \<and> (state g' = LOSE \<longrightarrow> hd (tail (snake g')) = next_head g)
            \<and> frame = full_frame g')
       \<and> (snd (schedule g dt) \<and> next_head g \<in> set (tail (snake g))
            \<and> cell (apple g) \<noteq> next_head g \<longrightarrow>
          OnUpdate rng g dt = Some (Inr (shrunk (stepped g dt), full_frame (shrunk (stepped g dt))))
            \<and> state (shrunk (stepped g dt)) = LOSE)
       \<and> (snd (schedule g dt) \<and> next_head g \<in> set (tail (snake g))
            \<and> cell (apple g) = next_head g \<longrightarrow>
          (OnUpdate rng g dt = None)
             = (\<forall>n. cell (sample rng (randCalls g + 2 * n))
                       \<in> set (next_head g # butlast (tail (snake g))))
          \<and> (\<forall>r. OnUpdate rng g dt = Some r \<longrightarrow>
                (\<exists>a k. r = Inr (grown (stepped g dt) a k, full_frame (grown (stepped g dt) a k))
                      \<and> state (grown (stepped g dt) a k) = LOSE
                      \<and> hd (tail (snake (grown (stepped g dt) a k))) = next_head g)))"
proof -
  from reachable_consistent[OF assms(1)] assms(2)
  have len: "tailLength (snake g) = int (length (tail (snake g)))" and ne: "tail (snake g) \<noteq> []"
    by (simp_all add: consistent_def)
  have up: "OnUpdate rng g dt = OnUpdatePlaying rng g dt"
    using assms(2) by (simp add: OnUpdate_def)
  have 1: "state (OnEvent rng g ks) \<noteq> LOSE"
    using assms(2)
    by (simp add: OnEvent_def OnEventPlaying_requested set_velocity_def split: option.splits)
  have 2: "checked (snake g) = tail (snake g)"
    using len by (simp add: checked_def)
  have 3: "OnUpdate rng g dt = Some (Inr (g', frame)) \<longrightarrow>
            (state g' = LOSE) = (snd (schedule g dt) \<and> next_head g \<in> set (tail (snake g)))
            \<and> (state g' = LOSE \<longrightarrow> hd (tail (snake g')) = next_head g)
            \<and> frame = full_frame g'"
  proof
    assume u: "OnUpdate rng g dt = Some (Inr (g', frame))"
    show "(state g' = LOSE) = (snd (schedule g dt) \<and> next_head g \<in> set (tail (snake g)))
            \<and> (state g' = LOSE \<longrightarrow> hd (tail (snake g')) = next_head g)
            \<and> frame = full_frame g'"
    proof (cases "snd (schedule g dt)")
      case False
      from u update_idle[OF len False, of rng] show ?thesis
        using assms(2) False by (auto simp: up schedule_keeps)
    next
      case due: True
      show ?thesis
      proof (cases "cell (apple g) = next_head g")
        case False
        from u update_shrink[OF len ne due False, of rng] show ?thesis
          using assms(2) due by (auto simp: up shrunk_fields stepped_fields split: if_splits)
      next
        case True
        from u update_eat[OF len ne due True, of rng]
        obtain a k where "g' = grown (stepped g dt) a k" "frame = full_frame (grown (stepped g dt) a k)"
          by (auto simp: up split: option.splits sum.splits)
        then show ?thesis
          using assms(2) due by (auto simp: grown_fields stepped_fields split: if_splits)
      qed
    qed
  qed
  have 4: "snd (schedule g dt) \<and> next_head g \<in> set (tail (snake g))
            \<and> cell (apple g) \<noteq> next_head g \<longrightarrow>
          OnUpdate rng g dt = Some (Inr (shrunk (stepped g dt), full_frame (shrunk (stepped g dt))))
            \<and> state (shrunk (stepped g dt)) = LOSE"
    using update_shrink[OF len ne, of dt rng]
    by (simp add: up shrunk_fields stepped_fields)
  have 5: "snd (schedule g dt) \<and> next_head g \<in> set (tail (snake g))
            \<and> cell (apple g) = next_head g \<longrightarrow>
          (OnUpdate rng g dt = None)
             = (\<forall>n. cell (sample rng (randCalls g + 2 * n))
                       \<in> set (next_head g # butlast (tail (snake g))))
          \<and> (\<forall>r. OnUpdate rng g dt = Some r \<longrightarrow>
                (\<exists>a k. r = Inr (grown (stepped g dt) a k, full_frame (grown (stepped g dt) a k))
                      \<and> state (grown (stepped g dt) a k) = LOSE
                      \<and> hd (tail (snake (grown (stepped g dt) a k))) = next_head g))"
  proof (intro impI conjI allI)
    assume h: "snd (schedule g dt) \<and> next_head g \<in> set (tail (snake g))
            \<and> cell (apple g) = next_head g"
    then show "(OnUpdate rng g dt = None)
             = (\<forall>n. cell (sample rng (randCalls g + 2 * n))
                       \<in> set (next_head g # butlast (tail (snake g))))"
      using eating_update(1)[OF assms, of dt] by (simp only: up)
  next
    fix r
    assume h: "snd (schedule g dt) \<and> next_head g \<in> set (tail (snake g))
            \<and> cell (apple g) = next_head g"
      and r: "OnUpdate rng g dt = Some r"
    from h have due: "snd (schedule g dt)" and eat: "cell (apple g) = next_head g"
      and hit: "next_head g \<in> set (tail (snake g))" by simp_all
    from r have "OnUpdatePlaying rng g dt = Some r" by (simp only: up)
    from eating_update(3)[OF assms due eat this] obtain a k where
      "r = Inr (grown (stepped g dt) a k, full_frame (grown (stepped g dt) a k))" by blast
    then show "\<exists>a k. r = Inr (grown (stepped g dt) a k, full_frame (grown (stepped g dt) a k))
                      \<and> state (grown (stepped g dt) a k) = LOSE
                      \<and> hd (tail (snake (grown (stepped g dt) a k))) = next_head g"
      using hit by (auto simp: grown_fields stepped_fields)
  qed
  from 1 2 3 4 5 show ?thesis by blast
qed

theorem lose_exactly_on_collision_witness:
  "reachable zeros coiled \<and> state coiled = PLAYING
   \<and> snd (schedule coiled 100)
   \<and> next_head coiled \<in> set (tail (snake coiled))
   \<and> OnUpdate zeros coiled 100 = Some (Inr (crashed, full_frame crashed))
   \<and> state crashed = LOSE
   \<and> hd (tail (snake crashed)) = next_head coiled
   \<and> state (OnEvent zeros coiled (held [SDL_SCANCODE_A])) \<noteq> LOSE
   \<and> state moved_right \<noteq> LOSE
   \<and> reachable escape_stream snared \<and> state snared = PLAYING
   \<and> snd (schedule snared 100)
   \<and> next_head snared \<in> set (tail (snake snared))
   \<and> cell (apple snared) = next_head snared
   \<and> OnUpdate escape_stream snared 100 = Some (Inr (caught, full_frame caught))
   \<and> state caught = LOSE
   \<and> hd (tail (snake caught)) = next_head snared"
proof -
  note t = lose_exactly_on_collision[OF reachable_coiled coiled_run(1)]
  have u: "OnUpdate zeros coiled 100 = Some (Inr (crashed, full_frame crashed))"
    and l: "state crashed = LOSE"
    using t[of "held []" 100 crashed "full_frame crashed"] coiled_run by simp_all
  have h: "hd (tail (snake crashed)) = next_head coiled"
    using t[of "held []" 100 crashed "full_frame crashed"] u l by blast
  have e: "state (OnEvent zeros coiled (held [SDL_SCANCODE_A])) \<noteq> LOSE"
    using t[of "held [SDL_SCANCODE_A]" 100 crashed "full_frame crashed"] by blast
  have m: "state moved_right \<noteq> LOSE"
    using lose_exactly_on_collision[OF reachable_moving_right moving_right_fields(4),
        of "held []" 16 moved_right "full_frame moved_right"] moving_right_update
    by (simp add: OnUpdate_def moving_right_fields moving_right_eq run_defs)
  note s = snared_run
  have free: "cell (sample escape_stream (randCalls snared + 2 * 1))
                \<notin> set (next_head snared # butlast (tail (snake snared)))"
    by (simp add: s(6,7) snared_samples(3) cell_def segment_def)
  have occ: "\<And>m. m < 1 \<Longrightarrow> cell (sample escape_stream (randCalls snared + 2 * m))
                \<in> set (next_head snared # butlast (tail (snake snared)))"
    using snared_samples(2) by (simp add: s(6,7))
  have "OnUpdatePlaying escape_stream snared 100 = Some (Inr (caught, full_frame caught))"
    using eating_update(2)[OF reachable_snared(2) s(1,2,3), of 1, OF free occ]
    by (simp add: s(6,8) snared_samples(3))
  then have u': "OnUpdate escape_stream snared 100 = Some (Inr (caught, full_frame caught))"
    by (simp add: OnUpdate_def s(1))
  note t' = lose_exactly_on_collision[OF reachable_snared(2) s(1),
      of "held []" 100 caught "full_frame caught"]
  from t' u' s(2,4) have l': "state caught = LOSE" by blast
  with t' u' have h': "hd (tail (snake caught)) = next_head snared" by blast
  from u l h e m reachable_coiled coiled_run(1,2,4) reachable_snared(2) s(1,2,3,4) u' l' h'
  show ?thesis by blast
qed

lemma blocked_eq: "blocked = apple_ahead"
  by (simp add: blocked_def apple_ahead_eq started_eq blocked_stream_def)

lemma reachable_blocked: "reachable blocked_stream blocked"
  unfolding blocked_def by (rule reachable.event[OF reachable.start])

lemma blocked_samples: "cell (sample blocked_stream (2 + 2 * n)) = segment 8 8"
  by (simp add: sample_def blocked_stream_def cell_def GRID_WIDTH_eq GRID_HEIGHT_eq)

subsection \<open>Where the apple respawns\<close>

text \<open>
  Claim C1 fails on the code. The inner loop of the respawn search runs over
  \<^verbatim>\<open>i < tailLength\<close> while the vector already holds \<^verbatim>\<open>tailLength + 1\<close> segments, and
  \<^verbatim>\<open>tailLength\<close> is incremented only after the search: the last segment, which stays on
  an eating step, is never compared. Run: the game is started with the apple at
  \<open>(9, 8)\<close>, the first step eats it, and \<^verbatim>\<open>rand()\<close> then yields \<open>3, 8\<close>; the new apple is
  placed at \<open>(3, 8)\<close>, the cell of the last of the seven segments.
\<close>

theorem respawn_on_last_segment:
  "reachable apple_ahead_stream apple_ahead
   \<and> state apple_ahead = PLAYING
   \<and> snd (schedule apple_ahead 16)
   \<and> cell (apple apple_ahead) = next_head apple_ahead
   \<and> OnUpdate apple_ahead_stream apple_ahead 16 = Some (Inr (fed, full_frame fed))
   \<and> tailLength (snake fed) = 7 \<and> length (tail (snake fed)) = 7
   \<and> apple fed = \<lparr>Apple_x = 3, Apple_y = 8\<rparr>
   \<and> last (tail (snake fed)) = segment 3 8
   \<and> cell (apple fed) \<in> set (tail (snake fed))"
proof -
  have "OnUpdate apple_ahead_stream apple_ahead 16 = Some (Inr (fed, full_frame fed))"
    using apple_ahead_update by (simp add: OnUpdate_def apple_ahead_run)
  moreover have "tailLength (snake fed) = 7 \<and> length (tail (snake fed)) = 7
   \<and> apple fed = \<lparr>Apple_x = 3, Apple_y = 8\<rparr>
   \<and> last (tail (snake fed)) = segment 3 8
   \<and> cell (apple fed) \<in> set (tail (snake fed))"
    by (simp add: fed_def playing_game_def cell_def)
  ultimately show ?thesis
    using reachable_apple_ahead apple_ahead_run(1,2,3) by blast
qed

subsection \<open>Termination of the respawn search\<close>

text \<open>
  Claim C5 fails on the code: the search is a bare rejection loop. Run: the game is
  started with the apple at \<open>(9, 8)\<close>, the first step eats it, and from then on \<^verbatim>\<open>rand()\<close>
  yields \<open>8\<close> forever, the cell \<open>(8, 8)\<close> of the second segment: the search, and with it the
  update, never returns.
\<close>

theorem respawn_diverges_counterexample:
  "reachable blocked_stream blocked
   \<and> state blocked = PLAYING
   \<and> snd (schedule blocked 16)
   \<and> cell (apple blocked) = next_head blocked
   \<and> respawn blocked_stream (snake (stepped blocked 16)) (randCalls blocked) = None
   \<and> OnUpdate blocked_stream blocked 16 = None"
proof -
  note r = apple_ahead_run[folded blocked_eq]
  note c = consistent_playing[OF reachable_blocked r(3)]
  have len': "tailLength (snake (stepped blocked 16)) \<le> int (length (tail (snake (stepped blocked 16))))"
    using c(1) by (simp add: stepped_fields)
  have occ: "\<And>n. cell (sample blocked_stream (2 + 2 * n)) \<in> set (checked (snake (stepped blocked 16)))"
    by (simp only: checked_stepped[OF c] r(5) blocked_samples) simp
  have d: "respawn blocked_stream (snake (stepped blocked 16)) (randCalls blocked) = None"
    using respawn_diverges[OF len', of blocked_stream 2] occ by (simp add: r(4))
  have "OnUpdate blocked_stream blocked 16 = None"
    using update_eat[OF c r(1,2), of blocked_stream] d by (simp add: OnUpdate_def r(3))
  with d reachable_blocked r(1,2,3) show ?thesis by blast
qed

text \<open>
  Claim C5, amended. On an eating step of a reachable game the search compares each
  sampled cell with the first \<^verbatim>\<open>tailLength\<close> segments of the vector, which are the new head
  and the old body without its last segment. The search terminates exactly when the
  random stream, from its current position, eventually yields a cell that is none of
  them, and it then returns the first such cell; the update does not return exactly when
  every sampled cell is one of them (so for no stream once they cover the grid).
\<close>

theorem respawn_terminates_iff:
  assumes "reachable rng g" "state g = PLAYING" "snd (schedule g dt)"
    "cell (apple g) = next_head g"
  shows "checked (snake (stepped g dt)) = next_head g # butlast (tail (snake g))
       \<and> (respawn rng (snake (stepped g dt)) (randCalls g) \<noteq> None)
           = (\<exists>n. cell (sample rng (randCalls g + 2 * n)) \<notin> set (next_head g # butlast (tail (snake g))))
       \<and> (cell (sample rng (randCalls g + 2 * n)) \<notin> set (next_head g # butlast (tail (snake g)))
           \<and> (\<forall>m<n. cell (sample rng (randCalls g + 2 * m)) \<in> set (next_head g # butlast (tail (snake g))))
          \<longrightarrow> respawn rng (snake (stepped g dt)) (randCalls g)
                = Some (Inr (sample rng (randCalls g + 2 * n), randCalls g + 2 * n + 2))
            \<and> OnUpdate rng g dt
                = Some (Inr (grown (stepped g dt) (sample rng (randCalls g + 2 * n)) (randCalls g + 2 * n + 2),
                             full_frame (grown (stepped g dt) (sample rng (randCalls g + 2 * n)) (randCalls g + 2 * n + 2)))))
       \<and> (OnUpdate rng g dt = None)
           = (\<forall>n. cell (sample rng (randCalls g + 2 * n)) \<in> set (next_head g # butlast (tail (snake g))))"
proof -
  note c = consistent_playing[OF assms(1,2)]
  let ?sn = "snake (stepped g dt)" and ?k = "randCalls g"
  let ?occ = "next_head g # butlast (tail (snake g))"
  have ch: "checked ?sn = ?occ" by (rule checked_stepped[OF c])
  have len': "tailLength ?sn \<le> int (length (tail ?sn))"
    using c(1) by (simp add: stepped_fields)
  have up: "OnUpdate rng g dt =
     (case respawn rng ?sn ?k of
        None \<Rightarrow> None
      | Some r \<Rightarrow>
          (case r of
             Inl e \<Rightarrow> Some (Inl e)
           | Inr (a, k) \<Rightarrow> Some (Inr (grown (stepped g dt) a k, full_frame (grown (stepped g dt) a k)))))"
    using update_eat[OF c assms(3,4), of rng] assms(2) by (simp add: OnUpdate_def)
  have first: "\<And>n. cell (sample rng (?k + 2 * n)) \<notin> set ?occ \<Longrightarrow>
        (\<forall>m<n. cell (sample rng (?k + 2 * m)) \<in> set ?occ) \<Longrightarrow>
        respawn rng ?sn ?k = Some (Inr (sample rng (?k + 2 * n), ?k + 2 * n + 2))"
    using respawn_first_free[OF len', of rng ?k] by (simp add: ch)
  have iff: "(respawn rng ?sn ?k \<noteq> None) = (\<exists>n. cell (sample rng (?k + 2 * n)) \<notin> set ?occ)"
  proof
    assume "respawn rng ?sn ?k \<noteq> None"
    then obtain r where "respawn rng ?sn ?k = Some r" by blast
    from respawn_result[OF this] len' show "\<exists>n. cell (sample rng (?k + 2 * n)) \<notin> set ?occ"
      by (auto simp: ch)
  next
    assume ex: "\<exists>n. cell (sample rng (?k + 2 * n)) \<notin> set ?occ"
    define n0 where "n0 = (LEAST n. cell (sample rng (?k + 2 * n)) \<notin> set ?occ)"
    have "cell (sample rng (?k + 2 * n0)) \<notin> set ?occ"
      unfolding n0_def using ex by (rule LeastI_ex)
    moreover have "\<forall>m<n0. cell (sample rng (?k + 2 * m)) \<in> set ?occ"
      unfolding n0_def using not_less_Least by blast
    ultimately show "respawn rng ?sn ?k \<noteq> None"
      using first[of n0] by simp
  qed
  have 3: "cell (sample rng (?k + 2 * n)) \<notin> set ?occ
           \<and> (\<forall>m<n. cell (sample rng (?k + 2 * m)) \<in> set ?occ)
          \<longrightarrow> respawn rng ?sn ?k = Some (Inr (sample rng (?k + 2 * n), ?k + 2 * n + 2))
            \<and> OnUpdate rng g dt
                = Some (Inr (grown (stepped g dt) (sample rng (?k + 2 * n)) (?k + 2 * n + 2),
                             full_frame (grown (stepped g dt) (sample rng (?k + 2 * n)) (?k + 2 * n + 2))))"
    using first[of n] by (simp add: up)
  have 4: "(OnUpdate rng g dt = None) = (\<forall>n. cell (sample rng (?k + 2 * n)) \<in> set ?occ)"
  proof -
    have "(OnUpdate rng g dt = None) = (respawn rng ?sn ?k = None)"
      by (simp add: up split: option.splits sum.splits)
    moreover have "(respawn rng ?sn ?k = None)
        = (\<forall>n. cell (sample rng (?k + 2 * n)) \<in> set ?occ)"
      using iff by (metis (no_types, lifting))
    ultimately show ?thesis by (rule trans)
  qed
  from ch iff 3 4 show ?thesis by blast
qed

theorem respawn_terminates_iff_witness:
  "reachable apple_ahead_stream apple_ahead \<and> state apple_ahead = PLAYING
   \<and> snd (schedule apple_ahead 16) \<and> cell (apple apple_ahead) = next_head apple_ahead
   \<and> respawn apple_ahead_stream (snake (stepped apple_ahead 16)) 2
       = Some (Inr (\<lparr>Apple_x = 3, Apple_y = 8\<rparr>, 4))
   \<and> OnUpdate apple_ahead_stream apple_ahead 16 \<noteq> None"
proof -
  note r = apple_ahead_run
  note t = respawn_terminates_iff[OF reachable_apple_ahead r(3) r(1) r(2), of 0]
  have free: "cell (sample apple_ahead_stream (randCalls apple_ahead + 2 * 0))
      \<notin> set (next_head apple_ahead # butlast (tail (snake apple_ahead)))"
    by (simp add: r cell_def segment_def)
  from t free
  have "respawn apple_ahead_stream (snake (stepped apple_ahead 16)) (randCalls apple_ahead)
     = Some (Inr (sample apple_ahead_stream (randCalls apple_ahead + 2 * 0), randCalls apple_ahead + 2 * 0 + 2))"
    by simp
  then have 1: "respawn apple_ahead_stream (snake (stepped apple_ahead 16)) 2
       = Some (Inr (\<lparr>Apple_x = 3, Apple_y = 8\<rparr>, 4))"
    by (simp add: r)
  from t free have 2: "OnUpdate apple_ahead_stream apple_ahead 16 \<noteq> None"
    by blast
  from 1 2 reachable_apple_ahead r(1,2,3) show ?thesis by blast
qed

subsection \<open>The scheduler over a window of one second\<close>

lemma schedule_no_reset:
  assumes "whole_window g" "d \<in> \<int>" "0 \<le> d" "secondAccumulator g + d < 1000"
  shows "secondAccumulator (fst (schedule g d)) = secondAccumulator g + d"
    "snd (schedule g d) = (real_of_int (movesPerformedThisSecond g)
                            < (secondAccumulator g + d) * movesPerSecond g / 1000)"
    "movesPerformedThisSecond (fst (schedule g d))
       = movesPerformedThisSecond g + (if snd (schedule g d) then 1 else 0)"
    "whole_window (fst (schedule g d))"
proof -
  have s: "schedule g d =
     (let g1 = g\<lparr>secondAccumulator := secondAccumulator g + d\<rparr>;
          g2 = (if secondAccumulator g1 \<ge> 1000
                then g1\<lparr>secondAccumulator := 0, movesPerformedThisSecond := 0\<rparr>
                else g1)
      in if real_of_int (movesPerformedThisSecond g2)
              < secondAccumulator g2 * movesPerSecond g2 / 1000
         then (g2\<lparr>movesPerformedThisSecond := movesPerformedThisSecond g2 + 1\<rparr>, True)
         else (g2, False))"
    using assms by (intro schedule_whole) (simp_all add: whole_window_def)
  show "secondAccumulator (fst (schedule g d)) = secondAccumulator g + d"
    "snd (schedule g d) = (real_of_int (movesPerformedThisSecond g)
                            < (secondAccumulator g + d) * movesPerSecond g / 1000)"
    "movesPerformedThisSecond (fst (schedule g d))
       = movesPerformedThisSecond g + (if snd (schedule g d) then 1 else 0)"
    using assms(4) by (simp_all add: s Let_def)
  show "whole_window (fst (schedule g d))"
    using assms by (simp add: s Let_def whole_window_def)
qed

lemma schedule_reset:
  assumes "whole_window g" "d \<in> \<int>" "0 \<le> d" "d \<le> 16000000"
    "1000 \<le> secondAccumulator g + d"
  shows "secondAccumulator (fst (schedule g d)) = 0"
    "movesPerformedThisSecond (fst (schedule g d)) = 0"
    "\<not> snd (schedule g d)"
proof -
  have s: "schedule g d =
     (let g1 = g\<lparr>secondAccumulator := secondAccumulator g + d\<rparr>;
          g2 = (if secondAccumulator g1 \<ge> 1000
                then g1\<lparr>secondAccumulator := 0, movesPerformedThisSecond := 0\<rparr>
                else g1)
      in if real_of_int (movesPerformedThisSecond g2)
              < secondAccumulator g2 * movesPerSecond g2 / 1000
         then (g2\<lparr>movesPerformedThisSecond := movesPerformedThisSecond g2 + 1\<rparr>, True)
         else (g2, False))"
    using assms by (intro schedule_whole) (simp_all add: whole_window_def)
  show "secondAccumulator (fst (schedule g d)) = 0"
    "movesPerformedThisSecond (fst (schedule g d)) = 0"
    "\<not> snd (schedule g d)"
    using assms(5) by (simp_all add: s Let_def)
qed

lemma run_schedule_Cons:
  "fst (run_schedule g (d # ds)) = fst (run_schedule (fst (schedule g d)) ds)"
  "snd (run_schedule g (d # ds))
     = (if snd (schedule g d) then 1 else 0) + snd (run_schedule (fst (schedule g d)) ds)"
  by (simp_all add: run_schedule.simps(2) split_beta Let_def)

lemma run_schedule_append:
  "fst (run_schedule g (xs @ ys)) = fst (run_schedule (fst (run_schedule g xs)) ys)"
  "snd (run_schedule g (xs @ ys))
     = snd (run_schedule g xs) + snd (run_schedule (fst (run_schedule g xs)) ys)"
  by (induction xs arbitrary: g) (simp_all add: run_schedule_Cons)

lemma run_schedule_rate: "movesPerSecond (fst (run_schedule g ds)) = movesPerSecond g"
  by (induction ds arbitrary: g) (simp_all add: run_schedule_Cons schedule_keeps)

lemma run_no_reset:
  assumes "whole_window g" "\<forall>d\<in>set ds. d \<in> \<int> \<and> 0 \<le> d"
    "secondAccumulator g + sum_list ds < 1000"
  shows "secondAccumulator (fst (run_schedule g ds)) = secondAccumulator g + sum_list ds
       \<and> movesPerformedThisSecond (fst (run_schedule g ds))
           = movesPerformedThisSecond g + int (snd (run_schedule g ds))
       \<and> snd (run_schedule g ds) \<le> length ds
       \<and> whole_window (fst (run_schedule g ds))"
  using assms
proof (induction ds arbitrary: g)
  case Nil
  then show ?case by simp
next
  case (Cons d ds)
  have d0: "d \<in> \<int>" "0 \<le> d" and rest: "\<forall>d\<in>set ds. d \<in> \<int> \<and> 0 \<le> d"
    using Cons.prems(2) by simp_all
  have rest0: "0 \<le> sum_list ds" using rest by (simp add: sum_list_nonneg)
  have nr: "secondAccumulator g + d < 1000"
    using Cons.prems(3) rest0 by simp
  note s = schedule_no_reset[OF Cons.prems(1) d0 nr]
  have "secondAccumulator (fst (schedule g d)) + sum_list ds < 1000"
    using Cons.prems(3) by (simp add: s(1))
  from Cons.IH[OF s(4) rest this]
  show ?case
    by (simp add: run_schedule_Cons s(1,3))
qed

lemma ceiling_bound_step:
  fixes x x' :: real
  assumes "n \<le> \<lceil>x\<rceil>" "x \<le> x'"
  shows "n + (if real_of_int n < x' then 1 else 0) \<le> \<lceil>x'\<rceil>"
proof (cases "real_of_int n < x'")
  case True
  then have "n < \<lceil>x'\<rceil>" by (simp add: less_ceiling_iff)
  with True show ?thesis by simp
next
  case False
  have "\<lceil>x\<rceil> \<le> \<lceil>x'\<rceil>" using assms(2) by (rule ceiling_mono)
  with False assms(1) show ?thesis by simp
qed

lemma ceiling_exact_step:
  fixes x x' :: real
  assumes "n = \<lceil>x\<rceil>" "x \<le> x'" "x' \<le> x + 1"
  shows "n + (if real_of_int n < x' then 1 else 0) = \<lceil>x'\<rceil>"
proof (cases "real_of_int n < x'")
  case True
  have "x \<le> real_of_int n" using assms(1) by simp
  then have "x' \<le> real_of_int (n + 1)" using assms(3) by simp
  with True have "\<lceil>x'\<rceil> = n + 1"
    by (intro ceiling_unique) simp_all
  with True show ?thesis by simp
next
  case False
  have "real_of_int n - 1 < x" using assms(1) by linarith
  then have "real_of_int n - 1 < x'" using assms(2) by simp
  with False have "\<lceil>x'\<rceil> = n"
    by (intro ceiling_unique) simp_all
  with False show ?thesis by simp
qed

lemma run_ceiling_bound:
  assumes "whole_window g" "\<forall>d\<in>set ds. d \<in> \<int> \<and> 0 \<le> d"
    "secondAccumulator g + sum_list ds < 1000"
    "movesPerformedThisSecond g \<le> \<lceil>secondAccumulator g * movesPerSecond g / 1000\<rceil>"
  shows "movesPerformedThisSecond (fst (run_schedule g ds))
           \<le> \<lceil>(secondAccumulator g + sum_list ds) * movesPerSecond g / 1000\<rceil>"
  using assms
proof (induction ds arbitrary: g)
  case Nil
  then show ?case by simp
next
  case (Cons d ds)
  have d0: "d \<in> \<int>" "0 \<le> d" and rest: "\<forall>d\<in>set ds. d \<in> \<int> \<and> 0 \<le> d"
    using Cons.prems(2) by simp_all
  have rest0: "0 \<le> sum_list ds" using rest by (simp add: sum_list_nonneg)
  have R0: "0 \<le> movesPerSecond g" using Cons.prems(1) by (simp add: whole_window_def)
  have nr: "secondAccumulator g + d < 1000"
    using Cons.prems(3) rest0 by simp
  note s = schedule_no_reset[OF Cons.prems(1) d0 nr]
  let ?g1 = "fst (schedule g d)"
  have mono: "secondAccumulator g * movesPerSecond g / 1000
                \<le> (secondAccumulator g + d) * movesPerSecond g / 1000"
    using d0(2) R0 by (simp add: mult_right_mono divide_right_mono)
  have inv: "movesPerformedThisSecond ?g1
        \<le> \<lceil>secondAccumulator ?g1 * movesPerSecond ?g1 / 1000\<rceil>"
    using ceiling_bound_step[OF Cons.prems(4) mono]
    by (simp add: s(1,2,3) schedule_keeps)
  have "movesPerformedThisSecond (fst (run_schedule ?g1 ds))
           \<le> \<lceil>(secondAccumulator ?g1 + sum_list ds) * movesPerSecond ?g1 / 1000\<rceil>"
  proof (rule Cons.IH[OF s(4) rest])
    show "secondAccumulator ?g1 + sum_list ds < 1000" using Cons.prems(3) by (simp add: s(1))
    show "movesPerformedThisSecond ?g1 \<le> \<lceil>secondAccumulator ?g1 * movesPerSecond ?g1 / 1000\<rceil>"
      by (rule inv)
  qed
  then show ?case
    by (simp add: run_schedule_Cons s(1) schedule_keeps add.assoc)
qed

lemma run_ceiling_exact:
  assumes "whole_window g"
    "\<forall>d\<in>set ds. d \<in> \<int> \<and> 0 \<le> d \<and> d * movesPerSecond g \<le> 1000"
    "secondAccumulator g + sum_list ds < 1000"
    "movesPerformedThisSecond g = \<lceil>secondAccumulator g * movesPerSecond g / 1000\<rceil>"
  shows "movesPerformedThisSecond (fst (run_schedule g ds))
           = \<lceil>(secondAccumulator g + sum_list ds) * movesPerSecond g / 1000\<rceil>"
  using assms
proof (induction ds arbitrary: g)
  case Nil
  then show ?case by simp
next
  case (Cons d ds)
  have d0: "d \<in> \<int>" "0 \<le> d" and dR: "d * movesPerSecond g \<le> 1000"
    and rest: "\<forall>d\<in>set ds. d \<in> \<int> \<and> 0 \<le> d \<and> d * movesPerSecond g \<le> 1000"
    using Cons.prems(2) by simp_all
  have rest0: "0 \<le> sum_list ds" using rest by (simp add: sum_list_nonneg)
  have R0: "0 \<le> movesPerSecond g" using Cons.prems(1) by (simp add: whole_window_def)
  have nr: "secondAccumulator g + d < 1000"
    using Cons.prems(3) rest0 by simp
  note s = schedule_no_reset[OF Cons.prems(1) d0 nr]
  let ?g1 = "fst (schedule g d)"
  have mono: "secondAccumulator g * movesPerSecond g / 1000
                \<le> (secondAccumulator g + d) * movesPerSecond g / 1000"
    using d0(2) R0 by (simp add: mult_right_mono divide_right_mono)
  have upper: "(secondAccumulator g + d) * movesPerSecond g / 1000
                \<le> secondAccumulator g * movesPerSecond g / 1000 + 1"
    using dR by (simp add: algebra_simps)
  have inv: "movesPerformedThisSecond ?g1
        = \<lceil>secondAccumulator ?g1 * movesPerSecond ?g1 / 1000\<rceil>"
    using ceiling_exact_step[OF Cons.prems(4) mono upper]
    by (simp add: s(1,2,3) schedule_keeps)
  have "movesPerformedThisSecond (fst (run_schedule ?g1 ds))
           = \<lceil>(secondAccumulator ?g1 + sum_list ds) * movesPerSecond ?g1 / 1000\<rceil>"
  proof (rule Cons.IH[OF s(4)])
    show "\<forall>d\<in>set ds. d \<in> \<int> \<and> 0 \<le> d \<and> d * movesPerSecond ?g1 \<le> 1000"
      using rest by (simp add: schedule_keeps)
    show "secondAccumulator ?g1 + sum_list ds < 1000" using Cons.prems(3) by (simp add: s(1))
    show "movesPerformedThisSecond ?g1 = \<lceil>secondAccumulator ?g1 * movesPerSecond ?g1 / 1000\<rceil>"
      by (rule inv)
  qed
  then show ?case
    by (simp add: run_schedule_Cons s(1) schedule_keeps add.assoc)
qed

lemma whole_window_moving_right: "whole_window moving_right"
  by (simp add: whole_window_def moving_right_fields)

lemma schedule_step:
  assumes "round32 (secondAccumulator g + d) = a" "a < 1000"
    "round32 (real_of_int (movesPerformedThisSecond g)) < round32 (round32 (a * movesPerSecond g) / 1000)"
  shows "schedule g d
       = (g\<lparr>secondAccumulator := a, movesPerformedThisSecond := movesPerformedThisSecond g + 1\<rparr>, True)"
  using assms by (simp add: schedule_def Let_def)

lemma round32_quarter: "round32 (600 + 1 / 65536) = 600"
proof -
  have "float_round 24 (- 149) (600 + 1 / 65536)
       = of_int (round_even ((600 + 1 / 65536) / 2 powi max (9 - (int 24 - 1)) (- 149)))
           * 2 powi max (9 - (int 24 - 1)) (- 149)"
    by (rule float_round_eval) simp_all
  moreover have "\<lfloor>39321601 / (4::real)\<rfloor> = 9830400" by (rule floor_unique) simp_all
  ultimately show ?thesis by (simp add: round32_def round_even_def power_int_minus)
qed

lemma round32_last: "round32 (600 + 6553599 / 16384) = 16383999 / 16384"
proof -
  have "representable 24 (- 149) (real_of_int 16383999 * 2 powi (- 14))"
    by (rule representable_scaled) simp_all
  from round32_representable[OF this] show ?thesis by (simp add: power_int_minus)
qed

lemma due_600:
  assumes "c \<le> 5" "0 \<le> c"
  shows "round32 (real_of_int c) < round32 (round32 (600 * 10) / 1000)"
proof -
  have "round32 (real_of_int c) = real_of_int c"
    using assms by (intro round32_int) simp
  then show ?thesis using assms(1) by (simp add: round32_numeral)
qed

lemma due_last:
  "round32 (real_of_int 5) < round32 (round32 (16383999 / 16384 * 10) / 1000)"
proof -
  have "real_of_int 9999 \<le> 16383999 / 16384 * 10" by simp
  from round32_ge[OF representable32_int this] have "9999 \<le> round32 (16383999 / 16384 * 10)"
    by simp
  then have "real_of_int 9 \<le> round32 (16383999 / 16384 * 10) / 1000" by simp
  from round32_ge[OF representable32_int this]
  have "9 \<le> round32 (round32 (16383999 / 16384 * 10) / 1000)" by simp
  then show ?thesis by (simp add: round32_numeral)
qed

lemma drift_run:
  "fst (run_schedule moving_right [600, 1 / 65536, 1 / 65536, 1 / 65536, 1 / 65536, 6553599 / 16384])
     = moving_right\<lparr>secondAccumulator := 16383999 / 16384, movesPerformedThisSecond := 6\<rparr>"
  "snd (run_schedule moving_right [600, 1 / 65536, 1 / 65536, 1 / 65536, 1 / 65536, 6553599 / 16384]) = 6"
proof -
  let ?g = "\<lambda>a c. moving_right\<lparr>secondAccumulator := a, movesPerformedThisSecond := c\<rparr>"
  have s1: "schedule moving_right 600 = (?g 600 1, True)"
    using schedule_step[of moving_right 600 600] due_600[of 0]
    by (simp add: moving_right_fields round32_numeral)
  have s2: "schedule (?g 600 c) (1 / 65536) = (?g 600 (c + 1), True)" if "c \<le> 5" "0 \<le> c" for c
    using schedule_step[of "?g 600 c" "1 / 65536" 600] due_600[OF that] round32_quarter
    by (simp add: moving_right_fields)
  have s3: "schedule (?g 600 5) (6553599 / 16384) = (?g (16383999 / 16384) 6, True)"
    using schedule_step[of "?g 600 5" "6553599 / 16384" "16383999 / 16384"] due_last round32_last
    by (simp add: moving_right_fields)
  show "fst (run_schedule moving_right [600, 1 / 65536, 1 / 65536, 1 / 65536, 1 / 65536, 6553599 / 16384])
     = ?g (16383999 / 16384) 6"
    "snd (run_schedule moving_right [600, 1 / 65536, 1 / 65536, 1 / 65536, 1 / 65536, 6553599 / 16384]) = 6"
    using s2[of 1] s2[of 2] s2[of 3] s2[of 4]
    by (simp_all add: run_schedule_Cons s1 s3)
qed

text \<open>
  Claim C4 fails on the code: the scheduler signals at most one step per frame and none on
  the frame that resets the window, so frames that are too long lose steps. With the
  configured rate of 10 and a fresh window, two frames of 500 ms sum to exactly 1000 ms
  and only one step is due. Nor is the window always reset when the delta times sum to
  1000 ms: the accumulator holds the rounded sums. The six delta times \<open>600\<close>, four times
  \<open>1 / 65536\<close>, and \<open>6553599 / 16384\<close>, all of them \<^verbatim>\<open>float\<close> numbers, sum to exactly 1000 ms;
  each \<open>1 / 65536\<close> is rounded away when it is added to \<open>600\<close>, the accumulator ends at
  \<open>1000 - 1 / 16384\<close>, and neither it nor the count is reset.
\<close>

theorem window_steps_counterexample:
  "movesPerSecond moving_right = 10
   \<and> secondAccumulator moving_right = 0 \<and> movesPerformedThisSecond moving_right = 0
   \<and> sum_list [500, 500] = (1000::real)
   \<and> snd (run_schedule moving_right [500, 500]) = 1
   \<and> sum_list [600, 1 / 65536, 1 / 65536, 1 / 65536, 1 / 65536, 6553599 / 16384] = (1000::real)
   \<and> secondAccumulator
        (fst (run_schedule moving_right
                [600, 1 / 65536, 1 / 65536, 1 / 65536, 1 / 65536, 6553599 / 16384]))
       = 16383999 / 16384
   \<and> movesPerformedThisSecond
        (fst (run_schedule moving_right
                [600, 1 / 65536, 1 / 65536, 1 / 65536, 1 / 65536, 6553599 / 16384]))
       = 6"
proof -
  note a = schedule_no_reset[OF whole_window_moving_right, of 500]
  have b: "\<not> snd (schedule (fst (schedule moving_right 500)) 500)"
    by (rule schedule_reset(3)[OF a(4)]) (simp_all add: a(1) moving_right_fields)
  have "snd (schedule moving_right 500)"
    by (simp add: a(2) moving_right_fields)
  with b have "snd (run_schedule moving_right [500, 500]) = 1"
    by (simp add: run_schedule_Cons)
  then show ?thesis
    by (simp add: moving_right_fields drift_run(1))
qed

text \<open>
  Claim C4, amended. For a whole rate \<open>R\<close> with \<open>0 < R \<le> 16384\<close> and every sequence of
  positive delta times that are whole numbers of milliseconds and sum to exactly 1000 ms,
  starting with the accumulator and the performed count at zero: the window boundary is
  reached on the last frame, which resets the accumulator and the count to zero and
  signals no step; before it the accumulator is the sum of the deltas and the count is the
  number of steps signalled, never reset; that number is at most \<open>R\<close> and less than the
  number of frames; and it is exactly \<open>R\<close> when every delta is at most \<open>1000 / R\<close> ms and
  the last one is shorter than \<open>1000 / R\<close> ms. (Delta times that are not whole numbers of
  milliseconds are rounded as they are accumulated, and the rounded sum may miss the
  boundary.)
\<close>

theorem window_steps:
  assumes rate: "movesPerSecond g = real R" "0 < R" "R \<le> 16384"
    and fresh: "secondAccumulator g = 0" "movesPerformedThisSecond g = 0"
    and pos: "\<forall>d\<in>set ds. d \<in> \<int> \<and> 0 < d" and total: "sum_list ds = 1000"
  shows "secondAccumulator (fst (run_schedule g ds)) = 0
       \<and> movesPerformedThisSecond (fst (run_schedule g ds)) = 0
       \<and> secondAccumulator (fst (run_schedule g (butlast ds))) = 1000 - last ds
       \<and> movesPerformedThisSecond (fst (run_schedule g (butlast ds))) = int (snd (run_schedule g ds))
       \<and> snd (run_schedule g ds) \<le> R
       \<and> snd (run_schedule g ds) < length ds
       \<and> ((\<forall>d\<in>set ds. d \<le> 1000 / real R) \<and> last ds < 1000 / real R
            \<longrightarrow> snd (run_schedule g ds) = R)"
proof -
  have w: "whole_window g" using rate fresh by (simp add: whole_window_def)
  have ne: "ds \<noteq> []" using total by auto
  define xs l where "xs = butlast ds" and "l = last ds"
  have ds: "ds = xs @ [l]" using ne by (simp add: xs_def l_def)
  have l0: "0 < l" "l \<in> \<int>" using pos ne by (simp_all add: l_def)
  have xs0: "\<forall>d\<in>set xs. d \<in> \<int> \<and> 0 \<le> d"
    using pos by (auto simp: xs_def dest: in_set_butlastD less_imp_le)
  then have xsum0: "0 \<le> sum_list xs" by (simp add: sum_list_nonneg)
  have sum: "sum_list xs = 1000 - l" using total by (simp add: ds)
  have lt: "secondAccumulator g + sum_list xs < 1000" using l0 by (simp add: sum fresh)
  let ?g1 = "fst (run_schedule g xs)" and ?k = "snd (run_schedule g xs)"
  from run_no_reset[OF w xs0 lt]
  have acc1: "secondAccumulator ?g1 = 1000 - l"
    and cnt1: "movesPerformedThisSecond ?g1 = int ?k"
    and len1: "?k \<le> length xs"
    and w1: "whole_window ?g1"
    by (simp_all add: fresh sum)
  have reset: "1000 \<le> secondAccumulator ?g1 + l" by (simp add: acc1)
  have lbig: "l \<le> 16000000" using xsum0 sum by simp
  have l0': "0 \<le> l" using l0(1) by simp
  note r = schedule_reset[OF w1 l0(2) l0' lbig reset]
  have fin: "fst (run_schedule g ds) = fst (schedule ?g1 l)"
    and steps: "snd (run_schedule g ds) = ?k"
    by (simp_all add: ds run_schedule_append run_schedule_Cons r(3))
  have bound: "?k \<le> R"
  proof -
    have "movesPerformedThisSecond ?g1
            \<le> \<lceil>(secondAccumulator g + sum_list xs) * movesPerSecond g / 1000\<rceil>"
      by (rule run_ceiling_bound[OF w xs0 lt]) (simp_all add: fresh)
    moreover have "(1000 - l) * real R / 1000 \<le> real R"
      using l0 by (simp add: field_simps)
    then have "\<lceil>(1000 - l) * real R / 1000\<rceil> \<le> int R"
      by (simp add: ceiling_le_iff)
    ultimately show ?thesis by (simp add: cnt1 fresh sum rate)
  qed
  have exact: "?k = R" if fine: "\<forall>d\<in>set ds. d \<le> 1000 / real R" and short: "last ds < 1000 / real R"
  proof -
    have Rpos: "0 < real R" using rate(2) by simp
    have "\<forall>d\<in>set xs. d \<in> \<int> \<and> 0 \<le> d \<and> d * movesPerSecond g \<le> 1000"
    proof
      fix d assume d: "d \<in> set xs"
      then have "d \<in> set ds" by (simp add: ds)
      with fine have "d \<le> 1000 / real R" by blast
      then have "d * real R \<le> 1000" using Rpos by (simp add: pos_le_divide_eq)
      with xs0 d show "d \<in> \<int> \<and> 0 \<le> d \<and> d * movesPerSecond g \<le> 1000" by (simp add: rate)
    qed
    from run_ceiling_exact[OF w this lt]
    have c: "int ?k = \<lceil>(1000 - l) * real R / 1000\<rceil>"
      by (simp add: cnt1 fresh sum rate)
    have "l * real R < 1000" using short Rpos by (simp add: l_def pos_less_divide_eq)
    then have lo: "real R - 1 < (1000 - l) * real R / 1000"
      by (simp add: field_simps)
    have hi: "(1000 - l) * real R / 1000 \<le> real R"
      using l0 by (simp add: field_simps)
    have "\<lceil>(1000 - l) * real R / 1000\<rceil> = int R"
      using lo hi by (intro ceiling_unique) simp_all
    with c show ?thesis by simp
  qed
  have "length ds = Suc (length xs)" by (simp add: ds)
  with len1 have "snd (run_schedule g ds) < length ds"
    by (simp add: steps)
  with r(1,2) acc1 cnt1 bound exact show ?thesis
    by (simp add: fin steps xs_def[symmetric] l_def[symmetric])
qed

theorem window_steps_witness:
  "sum_list [50, 100, 100, 100, 100, 100, 100, 100, 100, 100, 50] = (1000::real)
   \<and> snd (run_schedule moving_right [50, 100, 100, 100, 100, 100, 100, 100, 100, 100, 50]) = 10
   \<and> secondAccumulator
        (fst (run_schedule moving_right [50, 100, 100, 100, 100, 100, 100, 100, 100, 100, 50])) = 0
   \<and> movesPerformedThisSecond
        (fst (run_schedule moving_right [50, 100, 100, 100, 100, 100, 100, 100, 100, 100, 50])) = 0"
proof -
  let ?ds = "[50, 100, 100, 100, 100, 100, 100, 100, 100, 100, 50] :: real list"
  have h: "movesPerSecond moving_right = real 10" "0 < (10::nat)" "(10::nat) \<le> 16384"
    "secondAccumulator moving_right = 0" "movesPerformedThisSecond moving_right = 0"
    "\<forall>d\<in>set ?ds. d \<in> \<int> \<and> 0 < d" "sum_list ?ds = 1000"
    by (simp_all add: moving_right_fields)
  have fine: "(\<forall>d\<in>set ?ds. d \<le> 1000 / real 10) \<and> last ?ds < 1000 / real 10"
    by simp
  note t = window_steps[OF h]
  from t fine have "snd (run_schedule moving_right ?ds) = 10" by blast
  moreover from t have "secondAccumulator (fst (run_schedule moving_right ?ds)) = 0"
    "movesPerformedThisSecond (fst (run_schedule moving_right ?ds)) = 0"
    by blast+
  ultimately show ?thesis using h(7) by blast
qed

subsection \<open>The recorded length stays small\<close>

text \<open>The snake of a reachable game has at most 301 segments, so the \<^verbatim>\<open>int\<close> counter
  \<^verbatim>\<open>tailLength\<close> never overflows.\<close>

lemma wrap_in_range: "1 \<le> G \<Longrightarrow> 0 \<le> wrap G v \<and> wrap G v < G"
  by (auto simp: wrap_def Let_def)

lemma next_head_in_grid: "in_grid (next_head g)"
  using wrap_in_range[of GRID_WIDTH] wrap_in_range[of GRID_HEIGHT]
  by (simp add: in_grid_def next_head_def new_head_def segment_def GRID_WIDTH_eq GRID_HEIGHT_eq)

lemma in_grid_bound:
  assumes "distinct ts" "\<forall>t\<in>set ts. in_grid t"
  shows "length ts \<le> 300"
proof -
  let ?cells = "(\<lambda>(x, y). segment x y) ` ({0 ..< 20} \<times> {0 ..< 15})"
  have "set ts \<subseteq> ?cells"
  proof
    fix t assume "t \<in> set ts"
    with assms(2) have "in_grid t" by blast
    then have "(Tail_x t, Tail_y t) \<in> {0 ..< 20} \<times> {0 ..< 15}"
      by (simp add: in_grid_def GRID_WIDTH_eq GRID_HEIGHT_eq)
    moreover have "t = (\<lambda>(x, y). segment x y) (Tail_x t, Tail_y t)"
      by (simp add: segment_def)
    ultimately show "t \<in> ?cells" by (rule rev_image_eqI)
  qed
  moreover have "finite ?cells" by simp
  ultimately have "card (set ts) \<le> card ?cells" by (rule card_mono[rotated])
  also have "\<dots> \<le> card ({0 ..< 20 :: int} \<times> {0 ..< 15 :: int})"
    by (rule card_image_le) simp
  also have "\<dots> = 300" by simp
  finally show ?thesis using assms(1) by (simp add: distinct_card)
qed

lemma compact_OnEvent:
  assumes "compact g"
  shows "compact (OnEvent rng g ks)"
proof -
  have init: "\<And>g0. compact (InitPlayingState rng g0)"
    by (simp add: compact_def InitPlayingState_tail in_grid_def segment_def GRID_WIDTH_eq GRID_HEIGHT_eq)
  show ?thesis
  proof (cases "state g")
    case MENU
    then show ?thesis using assms init by (simp add: OnEvent_def OnEventMenu_def)
  next
    case PLAYING
    then show ?thesis using assms
      by (simp add: OnEvent_def OnEventPlaying_requested compact_def set_velocity_def distinct_tl
          split: option.splits)
  next
    case LOSE
    then show ?thesis using assms init by (simp add: OnEvent_def OnEventMenu_def)
  next
    case PAUSE
    then show ?thesis using assms by (simp add: OnEvent_def)
  qed
qed

lemma compact_OnUpdate:
  assumes k: "compact g" and c: "consistent g" and u: "OnUpdate rng g dt = Some (Inr (g', frame))"
  shows "compact g'"
proof (cases "state g = PLAYING")
  case False
  with u have "g' = g"
    by (cases "state g") (auto simp: OnUpdate_def OnUpdateMenu_def OnUpdateLose_def)
  with k show ?thesis by simp
next
  case p: True
  with c have len: "tailLength (snake g) = int (length (tail (snake g)))"
    and ne: "tail (snake g) \<noteq> []"
    by (simp_all add: consistent_def)
  from k p have grid: "\<forall>t\<in>set (tail (snake g)). in_grid t" and d: "distinct (tail (snake g))"
    by (simp_all add: compact_def)
  have up: "OnUpdatePlaying rng g dt = Some (Inr (g', frame))"
    using u p by (simp add: OnUpdate_def)
  have d': "distinct (butlast (tail (snake g)))" using d by (rule distinct_butlast)
  have grid': "\<forall>t\<in>set (butlast (tail (snake g))). in_grid t"
    using grid by (auto dest: in_set_butlastD)
  show ?thesis
  proof (cases "snd (schedule g dt)")
    case False
    from up update_idle[OF len False, of rng] k p show ?thesis
      by (auto simp: compact_def schedule_keeps)
  next
    case due: True
    show ?thesis
    proof (cases "cell (apple g) = next_head g")
      case False
      from up update_shrink[OF len ne due False, of rng]
      have g': "g' = shrunk (stepped g dt)" by simp
      have "next_head g \<notin> set (tail (snake g)) \<Longrightarrow> next_head g \<notin> set (butlast (tail (snake g)))"
        by (auto dest: in_set_butlastD)
      then show ?thesis
        using d' grid' next_head_in_grid[of g] p
        by (auto simp: g' compact_def shrunk_fields stepped_fields)
    next
      case True
      from up update_eat[OF len ne due True, of rng]
      obtain a k where g': "g' = grown (stepped g dt) a k"
        by (auto split: option.splits sum.splits)
      show ?thesis
        using d grid next_head_in_grid[of g] p
        by (auto simp: g' compact_def grown_fields stepped_fields)
    qed
  qed
qed

lemma reachable_compact: "reachable rng g \<Longrightarrow> compact g"
proof (induction rule: reachable.induct)
  case start
  show ?case by (simp add: compact_def initial_def)
next
  case (event g ks)
  then show ?case by (simp add: compact_OnEvent)
next
  case (update g deltaTime g' frame)
  from compact_OnUpdate[OF update.IH reachable_consistent[OF update.hyps(1)] update.hyps(2)]
  show ?case .
qed

lemma reachable_tailLength_bound:
  assumes "reachable rng g"
  shows "0 \<le> tailLength (snake g) \<and> tailLength (snake g) \<le> 301"
proof -
  have sub: "set (tl (tail (snake g))) \<subseteq> set (tail (snake g))"
    by (cases "tail (snake g)") auto
  from reachable_compact[OF assms] sub
  have "distinct (tl (tail (snake g)))" "\<forall>t\<in>set (tl (tail (snake g))). in_grid t"
    by (auto simp: compact_def)
  from in_grid_bound[OF this] have "length (tail (snake g)) \<le> 301" by simp
  with reachable_consistent[OF assms] show ?thesis by (simp add: consistent_def)
qed

section \<open>Properties of the particle emitter\<close>

subsection \<open>Operations of \<^verbatim>\<open>float\<close>\<close>

lemma FLT_MAX_big: "16777216 \<le> FLT_MAX"
  by (simp add: FLT_MAX_def)


lemma to_float_exact:
  assumes "representable 24 (- 149) r" "\<bar>r\<bar> \<le> FLT_MAX"
  shows "to_float r = Finite r"
proof -
  have "r \<le> FLT_MAX" "- FLT_MAX \<le> r" using assms(2) by (simp_all add: abs_le_iff)
  with round32_representable[OF assms(1)] show ?thesis by (simp add: to_float_def Let_def)
qed

lemma to_float_int: "\<bar>n\<bar> \<le> 16777216 \<Longrightarrow> to_float (real_of_int n) = Finite (real_of_int n)"
proof -
  assume n: "\<bar>n\<bar> \<le> 16777216"
  then have "\<bar>real_of_int n\<bar> \<le> 16777216" by linarith
  with FLT_MAX_big have "\<bar>real_of_int n\<bar> \<le> FLT_MAX" by simp
  with representable32_int[OF n] show ?thesis by (rule to_float_exact)
qed

lemma to_float_nat: "n \<le> 16777216 \<Longrightarrow> to_float (real n) = Finite (real n)"
  using to_float_int[of "int n"] by simp








subsection \<open>The loops over the pool\<close>





subsection \<open>One slot of the pool\<close>











subsection \<open>Creation, and the invariants of the emitter\<close>











subsection \<open>Concrete values\<close>










subsection \<open>Concrete ticks\<close>





















subsection \<open>The pool over any sequence of updates\<close>




end
